theory Spec2Isabelle
  imports Main "HOL-Library.Multiset"
begin

section \<open>JavaScript strings\<close>

text \<open>
  A JavaScript string is modelled as a \<^typ>\<open>string\<close>: one \<^typ>\<open>char\<close> per code unit,
  for code units in the range 0..255.  The patterns of \<^verbatim>\<open>route.ts\<close> name ASCII
  characters only, so a code unit outside ASCII is to every pattern just a character
  that is no letter, no digit and no punctuation mark of the pattern.
\<close>

text \<open>The characters of \<^verbatim>\<open>\s\<close> and of \<^verbatim>\<open>String.prototype.trim\<close>: TAB, LF, VT, FF, CR,
  space and the no-break space.\<close>

definition isSpace :: "char \<Rightarrow> bool" where
  "isSpace c = (c \<in> set [CHR 0x09, CHR 0x0A, CHR 0x0B, CHR 0x0C, CHR 0x0D, CHR 0x20, CHR 0xA0])"

text \<open>The characters of \<^verbatim>\<open>\w\<close>, which decide \<^verbatim>\<open>\b\<close>.\<close>

definition isWordChar :: "char \<Rightarrow> bool" where
  "isWordChar c = (c \<in> set ''abcdefghijklmnopqrstuvwxyzABCDEFGHIJKLMNOPQRSTUVWXYZ0123456789_'')"

definition isHexDigit :: "char \<Rightarrow> bool" where
  "isHexDigit c = (c \<in> set ''0123456789ABCDEFabcdef'')"

text \<open>The two quote characters, \<^verbatim>\<open>'\<close> and \<^verbatim>\<open>"\<close>.\<close>

definition quotes :: string where
  "quotes = [CHR 0x27, CHR 0x22]"

definition isQuote :: "char \<Rightarrow> bool" where
  "isQuote c = (c \<in> set quotes)"

text \<open>Upper-casing of one character.  Only ASCII letters change: the program applies
  \<^verbatim>\<open>toUpperCase\<close> to colour matches alone, and the case-insensitive patterns compare
  ASCII letters alone.\<close>

definition upperChar :: "char \<Rightarrow> char" where
  "upperChar c =
     (case map_of (zip ''abcdefghijklmnopqrstuvwxyz'' ''ABCDEFGHIJKLMNOPQRSTUVWXYZ'') c of
        Some u \<Rightarrow> u
      | None \<Rightarrow> c)"

definition toUpperCase :: "string \<Rightarrow> string" where
  "toUpperCase s = map upperChar s"

definition trim :: "string \<Rightarrow> string" where
  "trim s = rev (dropWhile isSpace (rev (dropWhile isSpace s)))"

definition startsWith :: "string \<Rightarrow> string \<Rightarrow> bool" where
  "startsWith s p = (take (length p) s = p)"

text \<open>\<^verbatim>\<open>s.includes(sub)\<close>, the test behind the selector \<^verbatim>\<open>[href*='...']\<close>.\<close>

fun str_includes :: "string \<Rightarrow> string \<Rightarrow> bool" where
  "str_includes [] sub = (sub = [])"
| "str_includes (x # xs) sub = (startsWith (x # xs) sub \<or> str_includes xs sub)"

text \<open>\<^verbatim>\<open>s.split(c)\<close> for a one-character separator: never an empty list.\<close>

fun split_on :: "char \<Rightarrow> string \<Rightarrow> string list" where
  "split_on c [] = [[]]"
| "split_on c (x # xs) =
     (if x = c then [] # split_on c xs
      else (case split_on c xs of [] \<Rightarrow> [[x]] | y # ys \<Rightarrow> (x # y) # ys))"

text \<open>\<^verbatim>\<open>s.split(/\s+/)\<close>: the pieces between maximal runs of white space.\<close>

function split_ws :: "string \<Rightarrow> string list" where
  "split_ws [] = [[]]"
| "split_ws (x # xs) =
     (if isSpace x then [] # split_ws (dropWhile isSpace xs)
      else (case split_ws xs of [] \<Rightarrow> [[x]] | y # ys \<Rightarrow> (x # y) # ys))"
  by pat_completeness auto
termination
  by (relation "measure length") (auto simp: le_imp_less_Suc length_dropWhile_le)

text \<open>\<^verbatim>\<open>parts.join(sep)\<close>.\<close>

fun join :: "string \<Rightarrow> string list \<Rightarrow> string" where
  "join sep [] = []"
| "join sep [x] = x"
| "join sep (x # y # ys) = x @ sep @ join sep (y # ys)"

section \<open>JavaScript sets\<close>

text \<open>A \<^verbatim>\<open>Set<string>\<close> is the list of its elements in insertion order;
  \<^verbatim>\<open>add\<close> appends an element that is not yet there, and \<^verbatim>\<open>Array.from\<close> is the list.\<close>

definition set_add :: "'a list \<Rightarrow> 'a \<Rightarrow> 'a list" where
  "set_add xs x = (if x \<in> set xs then xs else xs @ [x])"

definition set_add_all :: "'a list \<Rightarrow> 'a list \<Rightarrow> 'a list" where
  "set_add_all xs ys = foldl set_add xs ys"

section \<open>Regular expressions\<close>

text \<open>
  The regular expressions of \<^verbatim>\<open>route.ts\<close> are built from literal characters, character
  classes, \<^verbatim>\<open>\b\<close>, sequence, alternative and the greedy quantifiers \<^verbatim>\<open>?\<close>, \<^verbatim>\<open>*\<close>,
  \<^verbatim>\<open>+\<close> and \<^verbatim>\<open>{n}\<close>.
\<close>

datatype rx =
    Chr char
  | Cls "char \<Rightarrow> bool"
  | Eps
  | WordB
  | Seq rx rx
  | Alt rx rx
  | Opt rx
  | Star rx

text \<open>The classes \<^verbatim>\<open>[...]\<close> and \<^verbatim>\<open>[^...]\<close> over a list of characters.\<close>

definition oneOf :: "string \<Rightarrow> char \<Rightarrow> bool" where
  "oneOf cs c = (c \<in> set cs)"

definition noneOf :: "string \<Rightarrow> char \<Rightarrow> bool" where
  "noneOf cs c = (c \<notin> set cs)"

definition Plus :: "rx \<Rightarrow> rx" where
  "Plus a = Seq a (Star a)"

fun lit :: "string \<Rightarrow> rx" where
  "lit [] = Eps"
| "lit (c # cs) = Seq (Chr c) (lit cs)"

fun rep :: "nat \<Rightarrow> rx \<Rightarrow> rx" where
  "rep 0 a = Eps"
| "rep (Suc n) a = Seq a (rep n a)"

text \<open>A position in the subject: the character before it, if any, and the text from it on.\<close>

type_synonym pos = "char option \<times> string"

fun step :: "(char \<Rightarrow> bool) \<Rightarrow> pos \<Rightarrow> pos list" where
  "step P (p, []) = []"
| "step P (p, x # xs) = (if P x then [(Some x, xs)] else [])"

definition wordBefore :: "pos \<Rightarrow> bool" where
  "wordBefore st = (case fst st of None \<Rightarrow> False | Some c \<Rightarrow> isWordChar c)"

definition wordAfter :: "pos \<Rightarrow> bool" where
  "wordAfter st = (case snd st of [] \<Rightarrow> False | c # _ \<Rightarrow> isWordChar c)"

text \<open>
  The backtracking matcher: \<open>rx_run ic r st\<close> lists the positions at which a match of
  \<open>r\<close> that starts at \<open>st\<close> can end, in the order in which backtracking tries them.
  \<open>ic\<close> is the flag \<^verbatim>\<open>i\<close>.  A quantifier tries one more iteration before it tries to
  stop, and drops an iteration that consumed nothing.
\<close>

fun rx_run :: "bool \<Rightarrow> rx \<Rightarrow> pos \<Rightarrow> pos list" where
  "rx_run ic (Chr c) st =
     step (\<lambda>x. if ic then upperChar x = upperChar c else x = c) st"
| "rx_run ic (Cls P) st = step P st"
| "rx_run ic Eps st = [st]"
| "rx_run ic WordB st = (if wordBefore st \<noteq> wordAfter st then [st] else [])"
| "rx_run ic (Seq a b) st = concat (map (rx_run ic b) (rx_run ic a st))"
| "rx_run ic (Alt a b) st = rx_run ic a st @ rx_run ic b st"
| "rx_run ic (Opt a) st =
     filter (\<lambda>st'. length (snd st') < length (snd st)) (rx_run ic a st) @ [st]"
| "rx_run ic (Star a) st =
     concat (map (rx_run ic (Star a))
       (filter (\<lambda>st'. length (snd st') < length (snd st)) (rx_run ic a st))) @ [st]"

declare rx_run.simps(8) [simp del]

text \<open>A regular expression with one capture group: \<^verbatim>\<open>/pre(grp)post/\<close>, and its flag
  \<^verbatim>\<open>i\<close>.\<close>

record regex =
  icase :: bool
  pre :: rx
  grp :: rx
  post :: rx

text \<open>A match: \<^verbatim>\<open>match[0]\<close> and \<^verbatim>\<open>match[1]\<close>.\<close>

record rmatch =
  whole :: string
  group1 :: string

text \<open>The ways to match \<^verbatim>\<open>/pre(grp)post/\<close> from a position on, in the order of
  backtracking: where \<open>pre\<close> ends, where \<open>grp\<close> ends, where \<open>post\<close> ends.\<close>

definition rx_paths :: "regex \<Rightarrow> pos \<Rightarrow> (pos \<times> pos \<times> pos) list" where
  "rx_paths R st =
     concat (map (\<lambda>s1. concat (map (\<lambda>s2. map (\<lambda>s3. (s1, s2, s3))
         (rx_run (icase R) (post R) s2)) (rx_run (icase R) (grp R) s1)))
       (rx_run (icase R) (pre R) st))"

text \<open>The first match that starts at a position.\<close>

definition rx_match_at :: "regex \<Rightarrow> pos \<Rightarrow> rmatch option" where
  "rx_match_at R st =
     (case rx_paths R st of
        [] \<Rightarrow> None
      | (s1, s2, s3) # _ \<Rightarrow>
          Some \<lparr>whole = take (length (snd st) - length (snd s3)) (snd st),
                group1 = take (length (snd s1) - length (snd s2)) (snd s1)\<rparr>)"

text \<open>
  \<^verbatim>\<open>re.exec(s)\<close> without the flag \<^verbatim>\<open>g\<close>: the leftmost match.
\<close>

fun rx_exec :: "regex \<Rightarrow> char option \<Rightarrow> string \<Rightarrow> rmatch option" where
  "rx_exec R p [] = rx_match_at R (p, [])"
| "rx_exec R p (x # xs) =
     (case rx_match_at R (p, x # xs) of
        Some m \<Rightarrow> Some m
      | None \<Rightarrow> rx_exec R (Some x) xs)"

text \<open>
  All matches of a regular expression with the flag \<^verbatim>\<open>g\<close>, from left to right,
  as \<^verbatim>\<open>s.match(re)\<close> and the loop \<^verbatim>\<open>while ((match = re.exec(s)) !== null)\<close> visit them.
  \<open>k\<close> counts the characters of the last match that are still to be passed over.
  The search goes on behind a match; behind an empty match \<^verbatim>\<open>s.match\<close> steps one
  character on, and so does \<open>rx_scan\<close>.  No regular expression of \<^verbatim>\<open>route.ts\<close> matches
  the empty string, so the \<^verbatim>\<open>exec\<close> loops never see one.
\<close>

fun rx_scan :: "regex \<Rightarrow> nat \<Rightarrow> char option \<Rightarrow> string \<Rightarrow> rmatch list" where
  "rx_scan R k p [] =
     (if k = 0 then (case rx_match_at R (p, []) of None \<Rightarrow> [] | Some m \<Rightarrow> [m]) else [])"
| "rx_scan R k p (x # xs) =
     (case k of
        Suc j \<Rightarrow> rx_scan R j (Some x) xs
      | 0 \<Rightarrow>
         (case rx_match_at R (p, x # xs) of
            None \<Rightarrow> rx_scan R 0 (Some x) xs
          | Some m \<Rightarrow> m # rx_scan R (length (whole m) - 1) (Some x) xs))"

definition rx_match_all :: "regex \<Rightarrow> string \<Rightarrow> rmatch list" where
  "rx_match_all R s = rx_scan R 0 None s"

section \<open>The colour extractor\<close>

text \<open>\<^verbatim>\<open>/#([0-9A-Fa-f]{6}|[0-9A-Fa-f]{3})\b/g\<close>\<close>

definition colorRegex :: regex where
  "colorRegex =
     \<lparr>icase = False,
      pre = Chr CHR ''#'',
      grp = Alt (rep 6 (Cls isHexDigit)) (rep 3 (Cls isHexDigit)),
      post = WordB\<rparr>"

definition normalizeColor :: "string \<Rightarrow> string" where
  "normalizeColor color =
     (if length color = 4
      then toUpperCase [CHR ''#'', color ! 1, color ! 1, color ! 2, color ! 2, color ! 3, color ! 3]
      else toUpperCase color)"

definition extractColors :: "string \<Rightarrow> string list" where
  "extractColors text = map normalizeColor (map whole (rx_match_all colorRegex text))"

section \<open>The platform\<close>

text \<open>
  What \<^verbatim>\<open>route.ts\<close> takes from its platform is a parameter of the model:
  \<^item> \<open>url_parse input base\<close> is \<^verbatim>\<open>new URL(input, base).href\<close> (\<^verbatim>\<open>new URL(input).href\<close> when
    \<open>base\<close> is \<open>None\<close>), and \<open>None\<close> when the constructor throws;
  \<^item> \<open>fetch u\<close> is the outcome of \<^verbatim>\<open>fetch(u, ...)\<close>;
  \<^item> \<open>cheerio_load html\<close> is the parsed document: its elements in document order;
  \<^item> \<open>decodeURIComponent s\<close> is \<open>None\<close> when the function throws;
  \<^item> \<open>arrival\<close> is the order in which the style sheets that were recovered reach
    \<^verbatim>\<open>allCss\<close>: the order in which their fetches complete.
\<close>

record fetch_response =
  status :: nat
  statusText :: string
  body_text :: "string option"

text \<open>\<^verbatim>\<open>fetch\<close> rejects, or resolves to a response; reading the body of a response
  (\<^verbatim>\<open>res.text()\<close>) can reject as well: \<open>body_text\<close> is then \<open>None\<close>.\<close>

datatype fetch_outcome = Rejected | Responded fetch_response

definition ok :: "fetch_response \<Rightarrow> bool" where
  "ok r = (200 \<le> status r \<and> status r \<le> 299)"

record element =
  tag :: string
  attrs :: "(string \<times> string) list"
  innerHtml :: string

definition attr :: "element \<Rightarrow> string \<Rightarrow> string option" where
  "attr e name = map_of (attrs e) name"

record platform =
  url_parse :: "string \<Rightarrow> string option \<Rightarrow> string option"
  fetch :: "string \<Rightarrow> fetch_outcome"
  cheerio_load :: "string \<Rightarrow> element list"
  decodeURIComponent :: "string \<Rightarrow> string option"
  arrival :: "string list \<Rightarrow> string list"

section \<open>The URL resolver\<close>

definition resolveUrl :: "platform \<Rightarrow> string \<Rightarrow> string \<Rightarrow> string" where
  "resolveUrl P baseUrl relativeUrl =
     (case url_parse P relativeUrl (Some baseUrl) of
        Some href \<Rightarrow> href
      | None \<Rightarrow> relativeUrl)"

section \<open>The background-image extractor\<close>

text \<open>\<^verbatim>\<open>/url\(['"]?([^'")]+)['"]?\)/g\<close>\<close>

definition bgRegex :: regex where
  "bgRegex =
     \<lparr>icase = False,
      pre = Seq (lit ''url('') (Opt (Cls (oneOf quotes))),
      grp = Plus (Cls (noneOf (quotes @ '')''))),
      post = Seq (Opt (Cls (oneOf quotes))) (Chr CHR '')'')\<rparr>"

definition extractBackgroundImages :: "platform \<Rightarrow> string \<Rightarrow> string \<Rightarrow> string list" where
  "extractBackgroundImages P css baseUrl =
     concat (map (\<lambda>m. let imageUrl = group1 m in
                   if \<not> startsWith imageUrl ''data:'' then [resolveUrl P baseUrl imageUrl] else [])
       (rx_match_all bgRegex css))"

section \<open>The font extractor\<close>

text \<open>\<^verbatim>\<open>/font-family\s*:\s*([^;{}]+)/gi\<close>\<close>

definition fontFamilyRegex :: regex where
  "fontFamilyRegex =
     \<lparr>icase = True,
      pre = Seq (lit ''font-family'')
             (Seq (Star (Cls isSpace)) (Seq (Chr CHR '':'') (Star (Cls isSpace)))),
      grp = Plus (Cls (noneOf '';{}'')),
      post = Eps\<rparr>"

text \<open>\<^verbatim>\<open>/@font-face\s*{([^}]+)}/gi\<close>\<close>

definition fontFaceRegex :: regex where
  "fontFaceRegex =
     \<lparr>icase = True,
      pre = Seq (lit ''@font-face'') (Seq (Star (Cls isSpace)) (Chr CHR ''{'')),
      grp = Plus (Cls (noneOf ''}'')),
      post = Chr CHR ''}''\<rparr>"

text \<open>\<^verbatim>\<open>/font-family\s*:\s*['"]?([^'";]+)['"]?/i\<close>\<close>

definition faceFamilyRegex :: regex where
  "faceFamilyRegex =
     \<lparr>icase = True,
      pre = Seq (lit ''font-family'')
             (Seq (Star (Cls isSpace))
               (Seq (Chr CHR '':'') (Seq (Star (Cls isSpace)) (Opt (Cls (oneOf quotes)))))),
      grp = Plus (Cls (noneOf (quotes @ '';''))),
      post = Opt (Cls (oneOf quotes))\<rparr>"

text \<open>\<^verbatim>\<open>cleaned.match(/^(inherit|initial|unset|none)$/i)\<close>: the pattern matches when one
  of its alternatives matches the whole of the string.\<close>

definition isCssWideKeyword :: "string \<Rightarrow> bool" where
  "isCssWideKeyword cleaned =
     (\<exists>st \<in> set (rx_run True
          (Alt (lit ''inherit'') (Alt (lit ''initial'') (Alt (lit ''unset'') (lit ''none''))))
          (None, cleaned)). snd st = [])"

text \<open>\<^verbatim>\<open>font.trim().replace(/['"]/g, "")\<close>\<close>

definition cleanFont :: "string \<Rightarrow> string" where
  "cleanFont font = filter (\<lambda>c. \<not> isQuote c) (trim font)"

text \<open>The body of the first loop: one \<^verbatim>\<open>font-family\<close> declaration.\<close>

definition addDeclaration :: "string list \<Rightarrow> string \<Rightarrow> string list" where
  "addDeclaration fonts fontDeclaration =
     foldl (\<lambda>fs font. let cleaned = cleanFont font in
                if cleaned \<noteq> [] \<and> \<not> isCssWideKeyword cleaned then set_add fs cleaned else fs)
       fonts (split_on CHR '','' fontDeclaration)"

text \<open>The body of the second loop: one \<^verbatim>\<open>@font-face\<close> block.\<close>

definition addFontFace :: "string list \<Rightarrow> string \<Rightarrow> string list" where
  "addFontFace fonts fontFaceBlock =
     (case rx_exec faceFamilyRegex None fontFaceBlock of
        None \<Rightarrow> fonts
      | Some familyMatch \<Rightarrow> set_add fonts (trim (group1 familyMatch)))"

definition extractFonts :: "string \<Rightarrow> string list" where
  "extractFonts css =
     (let fonts1 = foldl (\<lambda>fs m. addDeclaration fs (trim (group1 m))) []
                     (rx_match_all fontFamilyRegex css)
      in foldl (\<lambda>fs m. addFontFace fs (group1 m)) fonts1 (rx_match_all fontFaceRegex css))"

section \<open>The request handler\<close>

text \<open>The request: \<^verbatim>\<open>request.json()\<close> rejects, or gives a body whose field \<^verbatim>\<open>url\<close>
  is a string or is missing.\<close>

datatype request = MalformedJson | Body "string option"

text \<open>The response: the three collections, or a status and an error message.\<close>

datatype response =
    Assets (images: "string list") (colors: "string list") (fonts: "string list")
  | Failure nat string

definition internalError :: response where
  "internalError = Failure 500 ''Internal server error''"

text \<open>\<^verbatim>\<open>$("img").each(...)\<close>\<close>

definition addImgSources :: "platform \<Rightarrow> string \<Rightarrow> element list \<Rightarrow> string list \<Rightarrow> string list" where
  "addImgSources P url doc imgs0 =
     foldl (\<lambda>imgs e.
        case attr e ''src'' of
          None \<Rightarrow> imgs
        | Some src \<Rightarrow>
            if src \<noteq> [] \<and> \<not> startsWith src ''data:'' then set_add imgs (resolveUrl P url src)
            else imgs)
       imgs0 (filter (\<lambda>e. tag e = ''img'') doc)"

text \<open>\<^verbatim>\<open>srcset.split(",").forEach(...)\<close>\<close>

definition addSrcset :: "platform \<Rightarrow> string \<Rightarrow> string list \<Rightarrow> string \<Rightarrow> string list" where
  "addSrcset P url imgs0 srcset =
     foldl (\<lambda>imgs src.
        case split_ws (trim src) of
          [] \<Rightarrow> imgs
        | imgUrl # _ \<Rightarrow>
            if imgUrl \<noteq> [] \<and> \<not> startsWith imgUrl ''data:''
            then set_add imgs (resolveUrl P url imgUrl)
            else imgs)
       imgs0 (split_on CHR '','' srcset)"

text \<open>\<^verbatim>\<open>$("img[srcset], source[srcset]").each(...)\<close>\<close>

definition addSrcsets :: "platform \<Rightarrow> string \<Rightarrow> element list \<Rightarrow> string list \<Rightarrow> string list" where
  "addSrcsets P url doc imgs0 =
     foldl (\<lambda>imgs e.
        case attr e ''srcset'' of
          None \<Rightarrow> imgs
        | Some srcset \<Rightarrow> if srcset \<noteq> [] then addSrcset P url imgs srcset else imgs)
       imgs0
       (filter (\<lambda>e. (tag e = ''img'' \<or> tag e = ''source'') \<and> attr e ''srcset'' \<noteq> None) doc)"

text \<open>\<^verbatim>\<open>$("[style]").each(...)\<close>: the inline styles that are pushed to \<^verbatim>\<open>allCss\<close>.\<close>

definition inlineStyles :: "element list \<Rightarrow> string list" where
  "inlineStyles doc =
     concat (map (\<lambda>e. case attr e ''style'' of
                        None \<Rightarrow> []
                      | Some style \<Rightarrow> if style \<noteq> [] then [style] else []) doc)"

text \<open>\<^verbatim>\<open>$("style").each(...)\<close>\<close>

definition styleBlocks :: "element list \<Rightarrow> string list" where
  "styleBlocks doc =
     concat (map (\<lambda>e. if innerHtml e \<noteq> [] then [innerHtml e] else [])
       (filter (\<lambda>e. tag e = ''style'') doc))"

text \<open>
  The selector \<^verbatim>\<open>[rel='stylesheet']\<close>.  In an HTML document the selector engine of
  \<^verbatim>\<open>cheerio\<close> compares the values of the attribute \<^verbatim>\<open>rel\<close> without regard to the case of
  the letters: the whole value, in one case, is the word \<^verbatim>\<open>stylesheet\<close>.
\<close>

definition relIsStylesheet :: "element \<Rightarrow> bool" where
  "relIsStylesheet e =
     (case attr e ''rel'' of
        None \<Rightarrow> False
      | Some rel \<Rightarrow> toUpperCase rel = toUpperCase ''stylesheet'')"

text \<open>\<^verbatim>\<open>$("link[rel='stylesheet']").each(...)\<close>: the addresses that are fetched, in
  document order.\<close>

definition stylesheetUrls :: "platform \<Rightarrow> string \<Rightarrow> element list \<Rightarrow> string list" where
  "stylesheetUrls P url doc =
     concat (map (\<lambda>e. case attr e ''href'' of
                        None \<Rightarrow> []
                      | Some href \<Rightarrow> if href \<noteq> [] then [resolveUrl P url href] else [])
       (filter (\<lambda>e. tag e = ''link'' \<and> relIsStylesheet e) doc))"

text \<open>One promise of \<^verbatim>\<open>linkPromises\<close>: the text that it pushes to \<^verbatim>\<open>allCss\<close>, if any.
  A response that is not \<^verbatim>\<open>ok\<close> gives the empty text, which is not pushed; a rejection
  is caught, and nothing is pushed.\<close>

definition stylesheetText :: "platform \<Rightarrow> string \<Rightarrow> string option" where
  "stylesheetText P cssUrl =
     (case fetch P cssUrl of
        Rejected \<Rightarrow> None
      | Responded res \<Rightarrow>
          (case (if ok res then body_text res else Some []) of
             None \<Rightarrow> None
           | Some css \<Rightarrow> if css \<noteq> [] then Some css else None))"

definition externalCss :: "platform \<Rightarrow> string list \<Rightarrow> string list" where
  "externalCss P cssUrls =
     arrival P (concat (map (\<lambda>u. case stylesheetText P u of None \<Rightarrow> [] | Some css \<Rightarrow> [css]) cssUrls))"

text \<open>\<^verbatim>\<open>/family=([^&:]+)/i\<close>\<close>

definition googleFamilyRegex :: regex where
  "googleFamilyRegex =
     \<lparr>icase = True,
      pre = lit ''family='',
      grp = Plus (Cls (noneOf ''&:'')),
      post = Eps\<rparr>"

text \<open>\<^verbatim>\<open>family.replace(/\+/g, " ")\<close>\<close>

definition plusToSpace :: "string \<Rightarrow> string" where
  "plusToSpace family = map (\<lambda>c. if c = CHR ''+'' then CHR '' '' else c) family"

text \<open>The families that one font-service link declares; \<open>None\<close> when
  \<^verbatim>\<open>decodeURIComponent\<close> throws.\<close>

definition googleFamilies :: "platform \<Rightarrow> string \<Rightarrow> string list option" where
  "googleFamilies P href =
     (case rx_exec googleFamilyRegex None href of
        None \<Rightarrow> Some []
      | Some familyMatch \<Rightarrow>
          (case decodeURIComponent P (group1 familyMatch) of
             None \<Rightarrow> None
           | Some decoded \<Rightarrow> Some (map plusToSpace (split_on CHR ''|'' decoded))))"

definition googleLinks :: "element list \<Rightarrow> element list" where
  "googleLinks doc =
     filter (\<lambda>e. tag e = ''link'' \<and>
                 (case attr e ''href'' of
                    None \<Rightarrow> False
                  | Some href \<Rightarrow> str_includes href ''fonts.googleapis.com'')) doc"

text \<open>\<^verbatim>\<open>$("link[href*='fonts.googleapis.com']").each(...)\<close>; \<open>None\<close> when an exception
  leaves the loop.\<close>

fun addGoogleFonts :: "platform \<Rightarrow> string list \<Rightarrow> element list \<Rightarrow> string list option" where
  "addGoogleFonts P fnts [] = Some fnts"
| "addGoogleFonts P fnts (e # es) =
     (case attr e ''href'' of
        None \<Rightarrow> addGoogleFonts P fnts es
      | Some href \<Rightarrow>
          if href \<noteq> [] then
            (case googleFamilies P href of
               None \<Rightarrow> None
             | Some families \<Rightarrow> addGoogleFonts P (set_add_all fnts families) es)
          else addGoogleFonts P fnts es)"

text \<open>\<^verbatim>\<open>allCss.join("\n")\<close>: the inline styles, the style blocks, and the external
  style sheets in the order of their arrival.\<close>

definition combinedCss :: "platform \<Rightarrow> string \<Rightarrow> element list \<Rightarrow> string" where
  "combinedCss P url doc =
     join [CHR 0x0A]
       (inlineStyles doc @ styleBlocks doc @ externalCss P (stylesheetUrls P url doc))"

text \<open>The handler from \<^verbatim>\<open>cheerio.load(html)\<close> on.\<close>

definition explodeDocument :: "platform \<Rightarrow> string \<Rightarrow> element list \<Rightarrow> response" where
  "explodeDocument P url doc =
     (let imgs = addSrcsets P url doc (addImgSources P url doc []);
          css = combinedCss P url doc;
          imgs = set_add_all imgs (extractBackgroundImages P css url);
          cols = set_add_all [] (extractColors css);
          fnts = set_add_all [] (extractFonts css)
      in case addGoogleFonts P fnts (googleLinks doc) of
           None \<Rightarrow> internalError
         | Some fnts \<Rightarrow> Assets imgs cols fnts)"

text \<open>
  \<^verbatim>\<open>POST\<close>: the response, and before it the addresses that were fetched, in the order
  of the calls of \<^verbatim>\<open>fetch\<close>.
\<close>

definition POST :: "platform \<Rightarrow> request \<Rightarrow> string list \<times> response" where
  "POST P request =
     (case request of
        MalformedJson \<Rightarrow> ([], internalError)
      | Body None \<Rightarrow> ([], Failure 400 ''URL is required'')
      | Body (Some url) \<Rightarrow>
          if url = [] then ([], Failure 400 ''URL is required'')
          else if url_parse P url None = None then ([], Failure 400 ''Invalid URL format'')
          else
            (case fetch P url of
               Rejected \<Rightarrow> ([url], internalError)
             | Responded fetchResponse \<Rightarrow>
                 if \<not> ok fetchResponse
                 then ([url], Failure 502 (''Failed to fetch URL: '' @ statusText fetchResponse))
                 else
                   (case body_text fetchResponse of
                      None \<Rightarrow> ([url], internalError)
                    | Some html \<Rightarrow>
                        let doc = cheerio_load P html
                        in (url # stylesheetUrls P url doc, explodeDocument P url doc))))"

section \<open>Notions of the specification\<close>

text \<open>
  The colour tokens as the specification words them: \<^verbatim>\<open>#\<close>, then exactly 3 or exactly 6
  hexadecimal digits, that is a run of hexadecimal digits which is 3 or 6 long and which
  no word character follows.
\<close>

definition spec_color_token :: "string \<Rightarrow> string option" where
  "spec_color_token s =
     (case s of
        [] \<Rightarrow> None
      | c # cs \<Rightarrow>
          let digits = takeWhile isHexDigit cs; rest = dropWhile isHexDigit cs
          in if c = CHR ''#'' \<and> (length digits = 3 \<or> length digits = 6)
                \<and> (case rest of [] \<Rightarrow> True | r # _ \<Rightarrow> \<not> isWordChar r)
             then Some (c # digits) else None)"

text \<open>The tokens of a text, from left to right.\<close>

fun spec_color_tokens :: "string \<Rightarrow> string list" where
  "spec_color_tokens [] = []"
| "spec_color_tokens (c # cs) =
     (case spec_color_token (c # cs) of None \<Rightarrow> [] | Some t \<Rightarrow> [t]) @ spec_color_tokens cs"

definition isUpperHexDigit :: "char \<Rightarrow> bool" where
  "isUpperHexDigit c = (c \<in> set ''0123456789ABCDEF'')"

text \<open>A colour of the form \<^verbatim>\<open>#RRGGBB\<close>, upper case.\<close>

definition isRRGGBB :: "string \<Rightarrow> bool" where
  "isRRGGBB c = (length c = 7 \<and> hd c = CHR ''#'' \<and> list_all isUpperHexDigit (tl c))"

text \<open>A list without its repetitions, every element where it first occurs.\<close>

fun first_occurrences :: "'a list \<Rightarrow> 'a list" where
  "first_occurrences [] = []"
| "first_occurrences (x # xs) = x # first_occurrences (filter (\<lambda>y. y \<noteq> x) xs)"

text \<open>The error classes of the specification, by the status of the response.\<close>

definition isValidationError :: "response \<Rightarrow> bool" where
  "isValidationError r = (case r of Failure code _ \<Rightarrow> code = 400 | _ \<Rightarrow> False)"

definition isUpstreamFetchError :: "response \<Rightarrow> bool" where
  "isUpstreamFetchError r = (case r of Failure code _ \<Rightarrow> code = 502 | _ \<Rightarrow> False)"

text \<open>An absolute URL string: one that \<^verbatim>\<open>new URL\<close> accepts without a base.\<close>

definition isAbsoluteUrl :: "platform \<Rightarrow> string \<Rightarrow> bool" where
  "isAbsoluteUrl P s = (url_parse P s None \<noteq> None)"

text \<open>
  The tokens of a \<^verbatim>\<open>font-family\<close> value as the specification words them: split at the
  commas, with the quote characters and the white space around each token stripped,
  without the CSS-wide keywords and the empty tokens.
\<close>

definition spec_strip :: "string \<Rightarrow> string" where
  "spec_strip tok =
     rev (dropWhile (\<lambda>c. isSpace c \<or> isQuote c) (rev (dropWhile (\<lambda>c. isSpace c \<or> isQuote c) tok)))"

definition spec_declaredFonts :: "string \<Rightarrow> string list" where
  "spec_declaredFonts v =
     filter (\<lambda>t. t \<noteq> [] \<and> map upperChar t \<notin> set [''INHERIT'', ''INITIAL'', ''UNSET'', ''NONE''])
       (map spec_strip (split_on CHR '','' v))"

section \<open>Auxiliary notions for the proofs\<close>

fun rx_avoids :: "bool \<Rightarrow> char \<Rightarrow> rx \<Rightarrow> bool" where
  "rx_avoids ic t (Chr c) = (if ic then upperChar t \<noteq> upperChar c else t \<noteq> c)"
| "rx_avoids ic t (Cls P) = (\<not> P t)"
| "rx_avoids ic t Eps = True"
| "rx_avoids ic t WordB = True"
| "rx_avoids ic t (Seq a b) = (rx_avoids ic t a \<and> rx_avoids ic t b)"
| "rx_avoids ic t (Alt a b) = (rx_avoids ic t a \<and> rx_avoids ic t b)"
| "rx_avoids ic t (Opt a) = rx_avoids ic t a"
| "rx_avoids ic t (Star a) = rx_avoids ic t a"

definition extend :: "string \<Rightarrow> pos \<Rightarrow> pos" where
  "extend w st = (fst st, snd st @ w)"

definition rx_avoids_all :: "regex \<Rightarrow> char \<Rightarrow> bool" where
  "rx_avoids_all R t =
     (rx_avoids (icase R) t (pre R) \<and> rx_avoids (icase R) t (grp R)
      \<and> rx_avoids (icase R) t (post R) \<and> \<not> isWordChar t)"

text \<open>No match at the very end of the text: the regular expression needs a character.\<close>

definition rx_needs_char :: "regex \<Rightarrow> bool" where
  "rx_needs_char R = (\<forall>p. rx_match_at R (p, []) = None)"

text \<open>The character before the position that is reached when \<open>w\<close> has been consumed.\<close>

definition consumed :: "string \<Rightarrow> char option \<Rightarrow> char option" where
  "consumed w p = (if w = [] then p else Some (last w))"

definition ci_eq :: "bool \<Rightarrow> string \<Rightarrow> string \<Rightarrow> bool" where
  "ci_eq ic a b = (if ic then map upperChar a = map upperChar b else a = b)"

text \<open>No occurrence of the word \<open>key\<close>, in any case, starts within \<open>g\<close> in the text
  \<open>g @ rest\<close>.\<close>

fun absent :: "string \<Rightarrow> string \<Rightarrow> string \<Rightarrow> bool" where
  "absent key [] rest = True"
| "absent key (x # xs) rest =
     (\<not> ci_eq True (take (length key) (x # xs @ rest)) key \<and> absent key xs rest)"

text \<open>The prefix \<^verbatim>\<open>font-family\s*:\s*\<close> of the two font regular expressions.\<close>

definition familyPrefix :: rx where
  "familyPrefix =
     Seq (lit ''font-family'') (Seq (Star (Cls isSpace)) (Seq (Chr CHR '':'') (Star (Cls isSpace))))"

text \<open>An image of the response: what the resolver makes of a reference that is not
  empty and does not start with \<^verbatim>\<open>data:\<close>.\<close>

definition resolvedRef :: "platform \<Rightarrow> string \<Rightarrow> string \<Rightarrow> bool" where
  "resolvedRef P url i =
     (\<exists>ref. ref \<noteq> [] \<and> \<not> startsWith ref ''data:'' \<and> i = resolveUrl P url ref)"

definition imagesOk :: "platform \<Rightarrow> string \<Rightarrow> string list \<Rightarrow> bool" where
  "imagesOk P url imgs = (distinct imgs \<and> (\<forall>i \<in> set imgs. resolvedRef P url i))"

text \<open>The fonts that one \<^verbatim>\<open>font-family\<close> declaration contributes.\<close>

definition declaredFonts :: "string \<Rightarrow> string list" where
  "declaredFonts fontDeclaration =
     filter (\<lambda>cleaned. cleaned \<noteq> [] \<and> \<not> isCssWideKeyword cleaned)
       (map cleanFont (split_on CHR '','' fontDeclaration))"


text \<open>The key \<^verbatim>\<open>family=\<close>, in any case.\<close>

definition isFamilyKey :: "string \<Rightarrow> bool" where
  "isFamilyKey key = (map upperChar key = ''FAMILY='')"

text \<open>The ways through \<open>pre\<close> and \<open>grp\<close> of \<open>fontFaceRegex\<close> that end where the text ends.\<close>

definition faceWays :: "pos \<Rightarrow> (pos \<times> pos) list" where
  "faceWays st =
     concat (map (\<lambda>s1. concat (map (\<lambda>s2. if snd s2 = [] then [(s1, s2)] else [])
         (rx_run True (grp fontFaceRegex) s1)))
       (rx_run True (pre fontFaceRegex) st))"

text \<open>
  The family that the value of a \<^verbatim>\<open>font-family\<close> declaration in a \<^verbatim>\<open>@font-face\<close> block
  declares: behind the white space and one opening quote, if there is one, the text up
  to the next quote or semicolon.
\<close>

definition faceFamilyValue :: "string \<Rightarrow> string" where
  "faceFamilyValue v =
     takeWhile (noneOf (quotes @ '';''))
       (case dropWhile isSpace v of
          [] \<Rightarrow> []
        | c # cs \<Rightarrow> if oneOf quotes c then cs else c # cs)"

text \<open>A regular expression without \<^verbatim>\<open>\b\<close>: what it matches from a position on does not
  depend on the character before the position.\<close>

fun rx_no_boundary :: "rx \<Rightarrow> bool" where
  "rx_no_boundary (Chr c) = True"
| "rx_no_boundary (Cls P) = True"
| "rx_no_boundary Eps = True"
| "rx_no_boundary WordB = False"
| "rx_no_boundary (Seq a b) = (rx_no_boundary a \<and> rx_no_boundary b)"
| "rx_no_boundary (Alt a b) = (rx_no_boundary a \<and> rx_no_boundary b)"
| "rx_no_boundary (Opt a) = rx_no_boundary a"
| "rx_no_boundary (Star a) = rx_no_boundary a"

definition rx_no_boundary_all :: "regex \<Rightarrow> bool" where
  "rx_no_boundary_all R = (rx_no_boundary (pre R) \<and> rx_no_boundary (grp R) \<and> rx_no_boundary (post R))"

text \<open>The texts left at the three positions of a way through a regular expression.\<close>

definition texts :: "pos \<times> pos \<times> pos \<Rightarrow> string \<times> string \<times> string" where
  "texts tr = (case tr of (s1, s2, s3) \<Rightarrow> (snd s1, snd s2, snd s3))"

text \<open>A fragment is cut at its last \<^verbatim>\<open>;\<close>, \<^verbatim>\<open>{\<close> or \<^verbatim>\<open>}\<close>.\<close>

definition fragmentHead :: "string \<Rightarrow> string" where
  "fragmentHead f = rev (dropWhile (noneOf '';{}'') (rev f))"

definition fragmentTail :: "string \<Rightarrow> string" where
  "fragmentTail f = rev (takeWhile (noneOf '';{}'') (rev f))"

text \<open>
  A closed fragment: no \<^verbatim>\<open>font-family\<close> behind its last \<^verbatim>\<open>;\<close>, \<^verbatim>\<open>{\<close> or \<^verbatim>\<open>}\<close>, and no
  \<^verbatim>\<open>@font-face\<close> behind its last \<^verbatim>\<open>}\<close> when that is its last \<^verbatim>\<open>;\<close>, \<^verbatim>\<open>{\<close> or \<^verbatim>\<open>}\<close>, and no
  \<^verbatim>\<open>@font-face\<close> at all otherwise.
\<close>

definition closedFragment :: "string \<Rightarrow> bool" where
  "closedFragment f =
     (absent ''font-family'' (fragmentTail f) [CHR 0x0A]
      \<and> absent ''@font-face''
          (if fragmentHead f \<noteq> [] \<and> last (fragmentHead f) = CHR ''}'' then fragmentTail f else f)
          [CHR 0x0A])"

text \<open>A fragment is cut at its last \<^verbatim>\<open>)\<close>.\<close>

definition urlHead :: "string \<Rightarrow> string" where
  "urlHead f = rev (dropWhile (noneOf '')'') (rev f))"

definition urlTail :: "string \<Rightarrow> string" where
  "urlTail f = rev (takeWhile (noneOf '')'') (rev f))"

text \<open>A fragment that closes its references: no \<^verbatim>\<open>url(\<close>, in any case, behind its last
  \<^verbatim>\<open>)\<close>.\<close>

definition closedUrls :: "string \<Rightarrow> bool" where
  "closedUrls f = absent ''url('' (urlTail f) [CHR 0x0A]"

section \<open>An example site\<close>

text \<open>
  A small site for the examples: three pages on \<^verbatim>\<open>https://x.com\<close>, two style sheets of
  which one is missing, and font-service links.  \<open>demo_url_parse\<close> gives what
  \<^verbatim>\<open>new URL\<close> gives for the addresses that occur on the site: the absolute ones are in
  normal form already, the relative ones are listed, and \<^verbatim>\<open>new URL("//", base)\<close> throws,
  as there is no host in it.
\<close>

definition demo_url_parse :: "string \<Rightarrow> string option \<Rightarrow> string option" where
  "demo_url_parse input base =
     (if startsWith input ''https://'' then Some input
      else if base = None then None
      else map_of
        [(''/a.png'', ''https://x.com/a.png''),
         (''b.png'', ''https://x.com/b.png''),
         (''c.png'', ''https://x.com/c.png''),
         (''main.css'', ''https://x.com/main.css''),
         (''gone.css'', ''https://x.com/gone.css'')] input)"

definition demo_page_html :: string where
  \<open>demo_page_html =
     ''<img src="/a.png"><img src="data:image/png;base64,AAAA"><img srcset="b.png 1x, c.png 2x">'' @
     ''<p style="color:#fff;"></p>'' @
     ''<style>h1{color:#FFF;font-family:Arial, sans-serif;background:url(/a.png)} '' @
     ''@font-face{font-family:"My Font"}</style>'' @
     ''<link rel="stylesheet" href="main.css"><link rel="stylesheet" href="gone.css">'' @
     ''<link rel="stylesheet" href="https://fonts.googleapis.com/css?family=Roboto:400,700|Open+Sans">''\<close>

definition demo_page :: "element list" where
  \<open>demo_page =
     [\<lparr>tag = ''img'', attrs = [(''src'', ''/a.png'')], innerHtml = []\<rparr>,
      \<lparr>tag = ''img'', attrs = [(''src'', ''data:image/png;base64,AAAA'')], innerHtml = []\<rparr>,
      \<lparr>tag = ''img'', attrs = [(''srcset'', ''b.png 1x, c.png 2x'')], innerHtml = []\<rparr>,
      \<lparr>tag = ''p'', attrs = [(''style'', ''color:#fff;'')], innerHtml = []\<rparr>,
      \<lparr>tag = ''style'', attrs = [],
        innerHtml = ''h1{color:#FFF;font-family:Arial, sans-serif;background:url(/a.png)} '' @
                    ''@font-face{font-family:"My Font"}''\<rparr>,
      \<lparr>tag = ''link'', attrs = [(''rel'', ''stylesheet''), (''href'', ''main.css'')], innerHtml = []\<rparr>,
      \<lparr>tag = ''link'', attrs = [(''rel'', ''stylesheet''), (''href'', ''gone.css'')], innerHtml = []\<rparr>,
      \<lparr>tag = ''link'',
        attrs = [(''rel'', ''stylesheet''),
                 (''href'', ''https://fonts.googleapis.com/css?family=Roboto:400,700|Open+Sans'')],
        innerHtml = []\<rparr>]\<close>

definition demo_edge_html :: string where
  \<open>demo_edge_html =
     ''<img src="//"><p style="font-family: Arial"></p><style>h1{color:red}</style>'' @
     ''<link rel="stylesheet" href="main.css"><link rel="stylesheet" href="gone.css">''\<close>

definition demo_edge :: "element list" where
  \<open>demo_edge =
     [\<lparr>tag = ''img'', attrs = [(''src'', ''//'')], innerHtml = []\<rparr>,
      \<lparr>tag = ''p'', attrs = [(''style'', ''font-family: Arial'')], innerHtml = []\<rparr>,
      \<lparr>tag = ''style'', attrs = [], innerHtml = ''h1{color:red}''\<rparr>,
      \<lparr>tag = ''link'', attrs = [(''rel'', ''stylesheet''), (''href'', ''main.css'')], innerHtml = []\<rparr>,
      \<lparr>tag = ''link'', attrs = [(''rel'', ''stylesheet''), (''href'', ''gone.css'')], innerHtml = []\<rparr>]\<close>

definition demo_fonts_html :: string where
  \<open>demo_fonts_html =
     ''<link rel="Stylesheet" href="main.css">'' @
     ''<link rel="STYLESHEET" href="https://fonts.googleapis.com/css?family=Open+Sans|Roboto+Mono">''\<close>

definition demo_fonts :: "element list" where
  \<open>demo_fonts =
     [\<lparr>tag = ''link'', attrs = [(''rel'', ''Stylesheet''), (''href'', ''main.css'')], innerHtml = []\<rparr>,
      \<lparr>tag = ''link'',
        attrs = [(''rel'', ''STYLESHEET''),
                 (''href'', ''https://fonts.googleapis.com/css?family=Open+Sans|Roboto+Mono'')],
        innerHtml = []\<rparr>]\<close>

definition demo_fetch :: "string \<Rightarrow> fetch_outcome" where
  "demo_fetch u =
     (case map_of
        [(''https://x.com/page'',
            \<lparr>status = 200, statusText = ''OK'', body_text = Some demo_page_html\<rparr>),
         (''https://x.com/edge'',
            \<lparr>status = 200, statusText = ''OK'', body_text = Some demo_edge_html\<rparr>),
         (''https://x.com/fonts'',
            \<lparr>status = 200, statusText = ''OK'', body_text = Some demo_fonts_html\<rparr>),
         (''https://x.com/main.css'',
            \<lparr>status = 200, statusText = ''OK'',
             body_text = Some ''a{color:#1AF;font-family:Georgia;}''\<rparr>),
         (''https://x.com/gone.css'',
            \<lparr>status = 404, statusText = ''Not Found'', body_text = Some ''<h1>Not Found</h1>''\<rparr>),
         (''https://x.com/missing'',
            \<lparr>status = 404, statusText = ''Not Found'', body_text = Some ''<h1>Not Found</h1>''\<rparr>),
         (''https://fonts.googleapis.com/css?family=Roboto:400,700|Open+Sans'',
            \<lparr>status = 200, statusText = ''OK'',
             body_text = Some ''@font-face{font-family:'Roboto';font-weight:400;}''\<rparr>)] u of
        Some res \<Rightarrow> Responded res
      | None \<Rightarrow> Rejected)"

text \<open>The example has no percent sign in a font-service address, and there
  \<^verbatim>\<open>decodeURIComponent\<close> returns its argument.  Its style sheets arrive in the order of
  the requests.\<close>

definition demo_platform :: platform where
  "demo_platform =
     \<lparr>url_parse = demo_url_parse,
      fetch = demo_fetch,
      cheerio_load = (\<lambda>html. if html = demo_page_html then demo_page
                              else if html = demo_edge_html then demo_edge
                              else if html = demo_fonts_html then demo_fonts else []),
      decodeURIComponent = (\<lambda>s. if CHR ''%'' \<in> set s then None else Some s),
      arrival = (\<lambda>css. css)\<rparr>"

section \<open>Properties of the matcher\<close>

lemma step_extend:
  "\<not> P t \<Longrightarrow> step P (p, u @ t # b) = map (extend (t # b)) (step P (p, u))"
  by (cases u) (simp_all add: extend_def)

lemma wordAfter_extend:
  "\<not> isWordChar t \<Longrightarrow> wordAfter (p, u @ t # b) = wordAfter (p, u)"
  by (cases u) (simp_all add: wordAfter_def)

lemma concat_map_commute:
  "(\<And>x. x \<in> set xs \<Longrightarrow> f (e x) = map e (f x)) \<Longrightarrow>
   concat (map f (map e xs)) = map e (concat (map f xs))"
  by (induction xs) simp_all

lemma rx_run_avoid:
  "rx_avoids ic t r \<Longrightarrow> \<not> isWordChar t \<Longrightarrow>
   rx_run ic r (extend (t # w) st) = map (extend (t # w)) (rx_run ic r st)"
proof (induction ic r st rule: rx_run.induct)
  case (1 ic c st)
  then show ?case by (cases st) (simp add: extend_def step_extend)
next
  case (2 ic P st)
  then show ?case by (cases st) (simp add: extend_def step_extend)
next
  case (3 ic st)
  then show ?case by simp
next
  case (4 ic st)
  then show ?case
    by (cases st) (simp add: extend_def wordAfter_extend wordBefore_def)
next
  case (5 ic r1 r2 st)
  from 5 have IH1: "rx_run ic r1 (extend (t # w) st) = map (extend (t # w)) (rx_run ic r1 st)"
    by simp
  have IH2: "rx_run ic r2 (extend (t # w) x) = map (extend (t # w)) (rx_run ic r2 x)"
    if "x \<in> set (rx_run ic r1 st)" for x
    using 5 that by simp
  have "rx_run ic (Seq r1 r2) (extend (t # w) st) =
          concat (map (rx_run ic r2) (map (extend (t # w)) (rx_run ic r1 st)))"
    by (simp only: rx_run.simps(5) IH1)
  also have "\<dots> = map (extend (t # w)) (concat (map (rx_run ic r2) (rx_run ic r1 st)))"
    by (rule concat_map_commute) (rule IH2)
  finally show ?case by (simp only: rx_run.simps(5))
next
  case (6 ic r1 r2 st)
  then show ?case by simp
next
  case (7 ic a st)
  then show ?case
    by (simp add: filter_map comp_def extend_def)
next
  case (8 ic a st)
  have IH2: "rx_run ic (Star a) (extend (t # w) x) = map (extend (t # w)) (rx_run ic (Star a) x)"
    if "x \<in> set (filter (\<lambda>st'. length (snd st') < length (snd st)) (rx_run ic a st))" for x
    using 8 that by simp
  from 8 have IH1: "rx_run ic a (extend (t # w) st) = map (extend (t # w)) (rx_run ic a st)"
    by simp
  have flt: "filter (\<lambda>st'. length (snd st') < length (snd (extend (t # w) st)))
               (map (extend (t # w)) (rx_run ic a st))
           = map (extend (t # w))
               (filter (\<lambda>st'. length (snd st') < length (snd st)) (rx_run ic a st))"
    by (simp add: filter_map comp_def extend_def)
  have "rx_run ic (Star a) (extend (t # w) st) =
          concat (map (rx_run ic (Star a))
            (map (extend (t # w))
              (filter (\<lambda>st'. length (snd st') < length (snd st)) (rx_run ic a st))))
          @ [extend (t # w) st]"
    by (simp only: rx_run.simps(8) IH1 flt)
  also have "\<dots> = map (extend (t # w))
          (concat (map (rx_run ic (Star a))
              (filter (\<lambda>st'. length (snd st') < length (snd st)) (rx_run ic a st)))
           @ [st])"
  proof -
    have "concat (map (rx_run ic (Star a))
            (map (extend (t # w))
              (filter (\<lambda>st'. length (snd st') < length (snd st)) (rx_run ic a st))))
        = map (extend (t # w))
            (concat (map (rx_run ic (Star a))
              (filter (\<lambda>st'. length (snd st') < length (snd st)) (rx_run ic a st))))"
      by (rule concat_map_commute) (rule IH2)
    then show ?thesis by (simp only: map_append list.map)
  qed
  finally show ?case by (simp only: rx_run.simps(8))
qed

lemma rx_run_length:
  "st' \<in> set (rx_run ic r st) \<Longrightarrow> length (snd st') \<le> length (snd st)"
proof (induction ic r st arbitrary: st' rule: rx_run.induct)
  case (1 ic c st)
  then show ?case by (cases st; cases "snd st") (auto split: if_splits)
next
  case (2 ic P st)
  then show ?case by (cases st; cases "snd st") (auto split: if_splits)
next
  case (5 ic r1 r2 st)
  from 5(3) obtain x where x: "x \<in> set (rx_run ic r1 st)" and "st' \<in> set (rx_run ic r2 x)"
    by auto
  with 5(1) [of x] 5(2) [of x st'] show ?case by simp
next
  case (8 ic a st)
  from 8(3) consider "st' = st"
    | x where "x \<in> set (rx_run ic a st)" "length (snd x) < length (snd st)"
        "st' \<in> set (rx_run ic (Star a) x)"
    by (subst (asm) rx_run.simps(8)) auto
  then show ?case
  proof cases
    case 1
    then show ?thesis by simp
  next
    case 2
    with 8(2) [of x st'] show ?thesis by simp
  qed
qed (auto split: if_splits)

lemma rx_paths_avoid:
  assumes "rx_avoids (icase R) t (pre R)" "rx_avoids (icase R) t (grp R)"
    "rx_avoids (icase R) t (post R)" "\<not> isWordChar t"
  shows "rx_paths R (extend (t # w) st) =
     map (\<lambda>(s1, s2, s3). (extend (t # w) s1, extend (t # w) s2, extend (t # w) s3))
       (rx_paths R st)"
  unfolding rx_paths_def
  by (simp add: rx_run_avoid [OF assms(1,4)] rx_run_avoid [OF assms(2,4)]
        rx_run_avoid [OF assms(3,4)] map_concat comp_def)

lemma rx_paths_length:
  assumes "(s1, s2, s3) \<in> set (rx_paths R st)"
  shows "length (snd s3) \<le> length (snd s2) \<and> length (snd s2) \<le> length (snd s1)
    \<and> length (snd s1) \<le> length (snd st)"
  using assms unfolding rx_paths_def by (auto dest: rx_run_length)

lemma rx_match_at_avoid:
  assumes "rx_avoids_all R t"
  shows "rx_match_at R (p, u @ t # w) = rx_match_at R (p, u)"
proof -
  have e: "(p, u @ t # w) = extend (t # w) (p, u)"
    by (simp add: extend_def)
  have paths: "rx_paths R (extend (t # w) (p, u)) =
     map (\<lambda>(s1, s2, s3). (extend (t # w) s1, extend (t # w) s2, extend (t # w) s3))
       (rx_paths R (p, u))"
    using assms by (intro rx_paths_avoid) (simp_all add: rx_avoids_all_def)
  show ?thesis
  proof (cases "rx_paths R (p, u)")
    case Nil
    with paths show ?thesis by (simp add: rx_match_at_def e)
  next
    case (Cons tr trs)
    obtain s1 s2 s3 where tr: "tr = (s1, s2, s3)" by (cases tr)
    with Cons have "(s1, s2, s3) \<in> set (rx_paths R (p, u))" by simp
    from rx_paths_length [OF this]
    have "length (snd s3) \<le> length u" "length (snd s2) \<le> length (snd s1)"
      by simp_all
    with Cons tr paths show ?thesis
      by (simp add: rx_match_at_def e) (simp add: extend_def)
  qed
qed

lemma rx_match_at_length:
  "rx_match_at R (p, s) = Some m \<Longrightarrow> length (whole m) \<le> length s"
  unfolding rx_match_at_def by (auto split: list.splits)

lemma rx_scan_avoid:
  assumes "rx_avoids_all R t" "rx_needs_char R"
  shows "k \<le> length u \<Longrightarrow>
    rx_scan R k p (u @ t # w) = rx_scan R k p u @ rx_scan R 0 (Some t) w"
proof (induction u arbitrary: k p)
  case Nil
  have "rx_match_at R (p, [] @ t # w) = rx_match_at R (p, [])"
    by (rule rx_match_at_avoid [OF assms(1)])
  with assms(2) Nil show ?case by (simp add: rx_needs_char_def)
next
  case (Cons x xs)
  have same: "rx_match_at R (p, (x # xs) @ t # w) = rx_match_at R (p, x # xs)"
    by (rule rx_match_at_avoid [OF assms(1)])
  show ?case
  proof (cases k)
    case (Suc j)
    with Cons show ?thesis by simp
  next
    case 0
    show ?thesis
    proof (cases "rx_match_at R (p, x # xs)")
      case None
      with same 0 Cons.IH [of 0 "Some x"] show ?thesis by simp
    next
      case (Some m)
      from rx_match_at_length [OF Some] have "length (whole m) - 1 \<le> length xs"
        by simp
      from Cons.IH [OF this, of "Some x"] same Some 0 show ?thesis by simp
    qed
  qed
qed

lemma lit_run:
  "rx_run ic (lit w) (p, s) =
     (if length w \<le> length s \<and> ci_eq ic (take (length w) s) w
      then [(consumed (take (length w) s) p, drop (length w) s)] else [])"
proof (induction w arbitrary: p s)
  case Nil
  then show ?case by (simp add: consumed_def ci_eq_def)
next
  case (Cons c cs)
  show ?case
  proof (cases s)
    case Nil
    then show ?thesis by simp
  next
    case (Cons x xs)
    then show ?thesis
      using Cons.IH [of "Some x" xs]
      by (auto simp: consumed_def ci_eq_def)
  qed
qed

lemma lit_run_prefix:
  assumes "length w' = length w" "ci_eq ic w' w"
  shows "rx_run ic (lit w) (p, w' @ s) = [(consumed w' p, s)]"
  using assms by (simp add: lit_run)

lemma star_cls_head:
  "\<exists>ys. rx_run ic (Star (Cls P)) (q, s) = (consumed (takeWhile P s) q, dropWhile P s) # ys"
proof (induction s arbitrary: q)
  case Nil
  show ?case by (simp add: rx_run.simps(8) consumed_def)
next
  case (Cons x xs)
  show ?case
  proof (cases "P x")
    case False
    then show ?thesis by (simp add: rx_run.simps(8) consumed_def)
  next
    case True
    from Cons [of "Some x"] obtain ys where
      "rx_run ic (Star (Cls P)) (Some x, xs) = (consumed (takeWhile P xs) (Some x), dropWhile P xs) # ys"
      by blast
    with True show ?thesis
      by (simp add: rx_run.simps(8) consumed_def)
  qed
qed

lemma plus_cls_empty:
  "takeWhile P s = [] \<Longrightarrow> rx_run ic (Plus (Cls P)) (q, s) = []"
  by (cases s) (auto simp: Plus_def split: if_splits)

lemma plus_cls_head:
  assumes "takeWhile P s \<noteq> []"
  shows "\<exists>ys. rx_run ic (Plus (Cls P)) (q, s) = (Some (last (takeWhile P s)), dropWhile P s) # ys"
proof -
  from assms obtain x xs where s: "s = x # xs" and x: "P x"
    by (cases s) (auto split: if_splits)
  from star_cls_head [of ic P "Some x" xs] obtain ys where
    "rx_run ic (Star (Cls P)) (Some x, xs) = (consumed (takeWhile P xs) (Some x), dropWhile P xs) # ys"
    by blast
  with s x show ?thesis by (simp add: Plus_def consumed_def)
qed

lemma plus_cls_shorter:
  assumes "st' \<in> set (rx_run ic (Plus (Cls P)) st)"
  shows "length (snd st') < length (snd st)"
proof -
  obtain q s where st: "st = (q, s)" by (cases st)
  from assms st obtain x xs where s: "s = x # xs" and "st' \<in> set (rx_run ic (Star (Cls P)) (Some x, xs))"
    by (cases s) (auto simp: Plus_def split: if_splits)
  from rx_run_length [OF this(2)] st s show ?thesis by simp
qed

lemma opt_cls_run:
  "rx_run ic (Opt (Cls P)) (q, s) =
     (case s of [] \<Rightarrow> [(q, [])] | x # xs \<Rightarrow> if P x then [(Some x, xs), (q, s)] else [(q, s)])"
  by (cases s) simp_all

lemma rx_paths_head:
  assumes "rx_run (icase R) (pre R) st = s1 # xs"
    and "rx_run (icase R) (grp R) s1 = s2 # ys"
    and "rx_run (icase R) (post R) s2 = s3 # zs"
  shows "\<exists>more. rx_paths R st = (s1, s2, s3) # more"
  using assms by (simp add: rx_paths_def)

lemma rx_match_at_head:
  assumes "rx_run (icase R) (pre R) st = s1 # xs"
    and "rx_run (icase R) (grp R) s1 = s2 # ys"
    and "rx_run (icase R) (post R) s2 = s3 # zs"
  shows "rx_match_at R st =
     Some \<lparr>whole = take (length (snd st) - length (snd s3)) (snd st),
           group1 = take (length (snd s1) - length (snd s2)) (snd s1)\<rparr>"
  using rx_paths_head [OF assms] by (auto simp: rx_match_at_def)

lemma rx_match_at_pre_fails:
  "rx_run (icase R) (pre R) st = [] \<Longrightarrow> rx_match_at R st = None"
  by (simp add: rx_match_at_def rx_paths_def)

lemma seq_head:
  assumes "rx_run ic r1 st = x # xs" and "rx_run ic r2 x = y # ys"
  shows "\<exists>zs. rx_run ic (Seq r1 r2) st = y # zs"
  using assms by simp

lemma takeWhile_run:
  assumes "\<forall>c \<in> set v. P c" and "rest = [] \<or> \<not> P (hd rest)"
  shows "takeWhile P (v @ rest) = v" and "dropWhile P (v @ rest) = rest"
  using assms by (cases rest; simp add: takeWhile_append2 dropWhile_append2)+

lemma upper_colon: "upperChar CHR '':'' = CHR '':''"
  by (simp add: upperChar_def)

lemma space_not_colon: "isSpace c \<Longrightarrow> c \<noteq> CHR '':''"
  by (auto simp: isSpace_def)

lemma familyPrefix_head:
  assumes w: "length w = 11" "map upperChar w = ''FONT-FAMILY''"
    and ws: "\<forall>c \<in> set ws. isSpace c"
  shows "\<exists>q ys. rx_run True familyPrefix (p, w @ ws @ CHR '':'' # v) = (q, dropWhile isSpace v) # ys"
proof -
  have ci: "ci_eq True w ''font-family''"
    using w by (simp add: ci_eq_def upperChar_def)
  have 1: "rx_run True (lit ''font-family'') (p, w @ ws @ CHR '':'' # v)
      = [(consumed w p, ws @ CHR '':'' # v)]"
    using w by (intro lit_run_prefix ci) simp
  have tw: "takeWhile isSpace (ws @ CHR '':'' # v) = ws" "dropWhile isSpace (ws @ CHR '':'' # v) = CHR '':'' # v"
    using ws by (simp_all add: takeWhile_run isSpace_def)
  from star_cls_head [of True isSpace "consumed w p" "ws @ CHR '':'' # v"] tw
  obtain ys where 2: "rx_run True (Star (Cls isSpace)) (consumed w p, ws @ CHR '':'' # v)
      = (consumed ws (consumed w p), CHR '':'' # v) # ys"
    by auto
  from star_cls_head [of True isSpace "Some CHR '':''" v]
  obtain zs where 3: "rx_run True (Star (Cls isSpace)) (Some CHR '':'', v)
      = (consumed (takeWhile isSpace v) (Some CHR '':''), dropWhile isSpace v) # zs"
    by auto
  have 4: "rx_run True (Seq (Chr CHR '':'') (Star (Cls isSpace))) (consumed ws (consumed w p), CHR '':'' # v)
      = (consumed (takeWhile isSpace v) (Some CHR '':''), dropWhile isSpace v) # zs"
    using 3 by simp
  from seq_head [OF 2 4] obtain us where 5:
    "rx_run True (Seq (Star (Cls isSpace)) (Seq (Chr CHR '':'') (Star (Cls isSpace))))
        (consumed w p, ws @ CHR '':'' # v)
      = (consumed (takeWhile isSpace v) (Some CHR '':''), dropWhile isSpace v) # us"
    by blast
  from seq_head [OF 1 5] show ?thesis
    unfolding familyPrefix_def by blast
qed

lemma fontFamilyRegex_sel:
  "icase fontFamilyRegex = True" "pre fontFamilyRegex = familyPrefix"
  "grp fontFamilyRegex = Plus (Cls (noneOf '';{}''))" "post fontFamilyRegex = Eps"
  by (simp_all add: fontFamilyRegex_def familyPrefix_def)

lemma fontFamily_match_at:
  assumes w: "length w = 11" "map upperChar w = ''FONT-FAMILY''"
    and ws: "\<forall>c \<in> set ws. isSpace c"
    and v: "\<forall>c \<in> set v. noneOf '';{}'' c" "\<exists>c \<in> set v. \<not> isSpace c"
    and rest: "rest = [] \<or> \<not> noneOf '';{}'' (hd rest)"
  shows "rx_match_at fontFamilyRegex (p, w @ ws @ CHR '':'' # v @ rest)
     = Some \<lparr>whole = w @ ws @ CHR '':'' # v, group1 = dropWhile isSpace v\<rparr>"
proof -
  let ?dv = "dropWhile isSpace v"
  from v(2) have dv: "dropWhile isSpace (v @ rest) = ?dv @ rest" and dvne: "?dv \<noteq> []"
    by (auto simp: dropWhile_append1 dropWhile_eq_Nil_conv)
  from familyPrefix_head [OF w ws, of p "v @ rest"] dv
  obtain q ys where pre: "rx_run True familyPrefix (p, w @ ws @ CHR '':'' # v @ rest) = (q, ?dv @ rest) # ys"
    by auto
  have cls: "\<forall>c \<in> set ?dv. noneOf '';{}'' c"
    using v(1) by (meson set_dropWhileD)
  have tw: "takeWhile (noneOf '';{}'') (?dv @ rest) = ?dv"
     "dropWhile (noneOf '';{}'') (?dv @ rest) = rest"
    using takeWhile_run [OF cls rest] by simp_all
  from plus_cls_head [of "noneOf '';{}''" "?dv @ rest" True q] tw dvne
  obtain zs where grp: "rx_run True (Plus (Cls (noneOf '';{}''))) (q, ?dv @ rest)
      = (Some (last ?dv), rest) # zs"
    by auto
  have "rx_match_at fontFamilyRegex (p, w @ ws @ CHR '':'' # v @ rest) =
     Some \<lparr>whole = take (length (snd (p, w @ ws @ CHR '':'' # v @ rest)) - length (snd (Some (last ?dv), rest)))
                     (snd (p, w @ ws @ CHR '':'' # v @ rest)),
           group1 = take (length (snd (q, ?dv @ rest)) - length (snd (Some (last ?dv), rest))) (snd (q, ?dv @ rest))\<rparr>"
    by (rule rx_match_at_head [where xs = ys and ys = zs and zs = "[]"])
       (simp_all only: fontFamilyRegex_sel pre grp rx_run.simps(3))
  then show ?thesis by simp
qed

lemma rx_run_suffix:
  "st' \<in> set (rx_run ic r st) \<Longrightarrow> \<exists>u. snd st = u @ snd st'"
proof (induction ic r st arbitrary: st' rule: rx_run.induct)
  case (1 ic c st)
  then show ?case by (cases st; cases "snd st") (auto split: if_splits)
next
  case (2 ic P st)
  then show ?case by (cases st; cases "snd st") (auto split: if_splits)
next
  case (5 ic r1 r2 st)
  from 5(3) obtain x where x: "x \<in> set (rx_run ic r1 st)" and "st' \<in> set (rx_run ic r2 x)"
    by auto
  with 5(1) [of x] 5(2) [of x st'] show ?case by (metis append.assoc)
next
  case (8 ic a st)
  from 8(3) consider "st' = st"
    | x where "x \<in> set (rx_run ic a st)" "length (snd x) < length (snd st)"
        "st' \<in> set (rx_run ic (Star a) x)"
    by (subst (asm) rx_run.simps(8)) auto
  then show ?case
  proof cases
    case 1
    then show ?thesis by simp
  next
    case 2
    from 2(1) 8(1) obtain u1 where u1: "snd st = u1 @ snd x" by blast
    from 2 have "x \<in> set (filter (\<lambda>st'. length (snd st') < length (snd st)) (rx_run ic a st))"
      by simp
    from 8(2) [OF this 2(3)] obtain u2 where "snd x = u2 @ snd st'" by blast
    with u1 show ?thesis by simp
  qed
qed (auto split: if_splits)

lemma upper_eq_punct:
  "c \<in> set ''{}@=:;-'' \<Longrightarrow> upperChar x = upperChar c \<Longrightarrow> x = c"
  unfolding upperChar_def
  by (simp, elim disjE) (auto split: option.splits if_splits)

section \<open>Properties of the colour extractor\<close>

lemma step_case:
  "step P (p, s) = (case s of [] \<Rightarrow> [] | x # xs \<Rightarrow> if P x then [(Some x, xs)] else [])"
  by (cases s) simp_all

lemma hex_word: "isHexDigit c \<Longrightarrow> isWordChar c"
  by (auto simp: isHexDigit_def isWordChar_def)

lemma hex_not_hash: "isHexDigit c \<Longrightarrow> c \<noteq> CHR ''#''"
  by (auto simp: isHexDigit_def)

text \<open>At one position the regular expression finds the token of the specification.\<close>

lemma color_match_at:
  "rx_match_at colorRegex (p, s) =
     (case spec_color_token s of None \<Rightarrow> None | Some t \<Rightarrow> Some \<lparr>whole = t, group1 = tl t\<rparr>)"
  unfolding rx_match_at_def rx_paths_def colorRegex_def spec_color_token_def
  by (auto simp: eval_nat_numeral step_case wordBefore_def wordAfter_def hex_word Let_def
       split: list.splits)

lemma spec_color_token_None: "c \<noteq> CHR ''#'' \<Longrightarrow> spec_color_token (c # cs) = None"
  by (simp add: spec_color_token_def Let_def)

lemma spec_color_token_Some:
  "spec_color_token (c # cs) = Some t \<Longrightarrow> c = CHR ''#'' \<and> t = c # takeWhile isHexDigit cs"
  by (auto simp: spec_color_token_def Let_def split: if_splits)

text \<open>The scan passes over the digits of a match; no token starts among them.\<close>

lemma color_scan:
  "\<forall>c \<in> set (take k s). c \<noteq> CHR ''#'' \<Longrightarrow>
   map whole (rx_scan colorRegex k p s) = spec_color_tokens s"
proof (induction s arbitrary: k p)
  case Nil
  then show ?case by (simp add: color_match_at spec_color_token_def)
next
  case (Cons x xs)
  show ?case
  proof (cases k)
    case (Suc j)
    with Cons.prems have "x \<noteq> CHR ''#''" and "\<forall>c \<in> set (take j xs). c \<noteq> CHR ''#''"
      by simp_all
    with Cons.IH [of j "Some x"] Suc show ?thesis
      by (simp add: spec_color_token_None)
  next
    case 0
    show ?thesis
    proof (cases "spec_color_token (x # xs)")
      case None
      with Cons.IH [of 0 "Some x"] 0 show ?thesis
        by (simp add: color_match_at)
    next
      case (Some t)
      then have t: "t = x # takeWhile isHexDigit xs"
        by (simp add: spec_color_token_Some)
      have "\<forall>c \<in> set (take (length (takeWhile isHexDigit xs)) xs). c \<noteq> CHR ''#''"
        by (metis hex_not_hash set_takeWhileD takeWhile_eq_take)
      from Cons.IH [OF this, of "Some x"] Some 0 t show ?thesis
        by (simp add: color_match_at)
    qed
  qed
qed

lemma extractColors_spec:
  "extractColors input = map normalizeColor (spec_color_tokens input)"
  using color_scan [of 0 input None] by (simp add: extractColors_def rx_match_all_def)

lemma upper_hex: "isHexDigit c \<Longrightarrow> isUpperHexDigit (upperChar c)"
  unfolding isHexDigit_def by (simp, elim disjE) (simp_all add: upperChar_def isUpperHexDigit_def)

lemma upper_hash: "upperChar CHR ''#'' = CHR ''#''"
  by (simp add: upperChar_def)

lemma spec_color_token_shape:
  assumes "spec_color_token s = Some t"
  shows "\<exists>h. t = CHR ''#'' # h \<and> (length h = 3 \<or> length h = 6) \<and> list_all isHexDigit h"
proof -
  from assms obtain c cs where s: "s = c # cs"
    by (cases s) (auto simp: spec_color_token_def)
  from assms s have "t = CHR ''#'' # takeWhile isHexDigit cs"
    and "length (takeWhile isHexDigit cs) = 3 \<or> length (takeWhile isHexDigit cs) = 6"
    by (auto simp: spec_color_token_def Let_def split: if_splits)
  moreover have "list_all isHexDigit (takeWhile isHexDigit cs)"
    by (auto simp: list_all_iff dest: set_takeWhileD)
  ultimately show ?thesis by blast
qed

lemma normalize3:
  "normalizeColor [CHR ''#'', r, g, b] =
     [CHR ''#'', upperChar r, upperChar r, upperChar g, upperChar g, upperChar b, upperChar b]"
  by (simp add: normalizeColor_def toUpperCase_def upper_hash)

lemma normalize6:
  "length h = 6 \<Longrightarrow> normalizeColor (CHR ''#'' # h) = CHR ''#'' # map upperChar h"
  by (simp add: normalizeColor_def toUpperCase_def upper_hash)

lemma length3: "length h = 3 \<Longrightarrow> \<exists>r g b. h = [r, g, b]"
  by (cases h; cases "tl h"; cases "tl (tl h)") auto

lemma normalize_shape:
  assumes "length h = 3 \<or> length h = 6" and "list_all isHexDigit h"
  shows "isRRGGBB (normalizeColor (CHR ''#'' # h))"
  using assms(1)
proof
  assume "length h = 3"
  then obtain r g b where "h = [r, g, b]" using length3 by blast
  with assms(2) show ?thesis
    by (simp add: normalize3 isRRGGBB_def upper_hex)
next
  assume "length h = 6"
  with assms(2) show ?thesis
    by (simp add: normalize6 isRRGGBB_def upper_hex list_all_iff)
qed

lemma spec_color_tokens_mem:
  "t \<in> set (spec_color_tokens s) \<Longrightarrow> \<exists>s'. spec_color_token s' = Some t"
  by (induction s) (auto split: option.splits)

lemma extractColors_shape: "c \<in> set (extractColors txt) \<Longrightarrow> isRRGGBB c"
  by (auto simp: extractColors_spec dest!: spec_color_tokens_mem spec_color_token_shape
      intro: normalize_shape)

lemma takeWhile_all: "\<forall>x \<in> set xs. P x \<Longrightarrow> takeWhile P xs = xs"
  by simp

lemma dropWhile_all: "\<forall>x \<in> set xs. P x \<Longrightarrow> dropWhile P xs = []"
  by simp

lemma spec_color_tokens_no_hash:
  "\<forall>c \<in> set s. c \<noteq> CHR ''#'' \<Longrightarrow> spec_color_tokens s = []"
  by (induction s) (simp_all add: spec_color_token_None)

lemma spec_color_tokens_single:
  assumes "length h = 3 \<or> length h = 6" and "list_all isHexDigit h"
  shows "spec_color_tokens (CHR ''#'' # h) = [CHR ''#'' # h]"
proof -
  from assms(2) have all: "\<forall>c \<in> set h. isHexDigit c"
    by (simp add: list_all_iff)
  with assms(1) have "spec_color_token (CHR ''#'' # h) = Some (CHR ''#'' # h)"
    by (auto simp: spec_color_token_def takeWhile_all dropWhile_all)
  moreover from all have "spec_color_tokens h = []"
    by (intro spec_color_tokens_no_hash) (auto dest: hex_not_hash)
  ultimately show ?thesis by simp
qed

text \<open>
  Claim C4.  \<open>extractColors\<close> returns, from left to right, the normal forms of exactly the
  tokens that the specification describes: \<^verbatim>\<open>#\<close> with exactly 3 or exactly 6 hexadecimal
  digits, word-bounded.  Every element of its output is \<^verbatim>\<open>#\<close> with six upper-case
  hexadecimal digits; a token of 3 digits is expanded by doubling each digit, a token of
  6 digits is upper-cased, and \<^verbatim>\<open>#1AF\<close> yields \<^verbatim>\<open>#11AAFF\<close>.
\<close>

theorem extractColors_tokens:
  "extractColors txt = map normalizeColor (spec_color_tokens txt)
   \<and> (\<forall>c \<in> set (extractColors txt). isRRGGBB c)
   \<and> (isHexDigit r \<and> isHexDigit g \<and> isHexDigit b \<longrightarrow>
        extractColors [CHR ''#'', r, g, b] =
          [[CHR ''#'', upperChar r, upperChar r, upperChar g, upperChar g,
            upperChar b, upperChar b]])
   \<and> (length h = 6 \<and> list_all isHexDigit h \<longrightarrow>
        extractColors (CHR ''#'' # h) = [CHR ''#'' # map upperChar h])
   \<and> extractColors ''#1AF'' = [''#11AAFF'']"
proof (intro conjI impI ballI)
  show "extractColors txt = map normalizeColor (spec_color_tokens txt)"
    by (rule extractColors_spec)
  show "isRRGGBB c" if "c \<in> set (extractColors txt)" for c
    using that by (rule extractColors_shape)
  show "extractColors [CHR ''#'', r, g, b] =
          [[CHR ''#'', upperChar r, upperChar r, upperChar g, upperChar g,
            upperChar b, upperChar b]]"
    if "isHexDigit r \<and> isHexDigit g \<and> isHexDigit b"
    using that spec_color_tokens_single [of "[r, g, b]"]
    by (simp add: extractColors_spec normalize3)
  show "extractColors (CHR ''#'' # h) = [CHR ''#'' # map upperChar h]"
    if "length h = 6 \<and> list_all isHexDigit h"
    using that spec_color_tokens_single [of h]
    by (simp add: extractColors_spec normalize6)
  show "extractColors ''#1AF'' = [''#11AAFF'']"
    by code_simp
qed

theorem extractColors_tokens_witness:
  "list_all isRRGGBB (extractColors ''a{color:#1af} b{color:#C0ffee}'')
   \<and> extractColors ''#1af'' = [''#11AAFF'']
   \<and> extractColors ''#C0ffee'' = [''#C0FFEE'']"
  using extractColors_tokens [of "''a{color:#1af} b{color:#C0ffee}''"
      "CHR ''1''" "CHR ''a''" "CHR ''f''" "''C0ffee''"]
  by (simp add: isHexDigit_def upperChar_def list_all_iff)

section \<open>Properties of the sets and of the request handler\<close>

lemma set_add_all_first:
  "set_add_all acc xs = acc @ first_occurrences (filter (\<lambda>y. y \<notin> set acc) xs)"
  unfolding set_add_all_def
proof (induction xs arbitrary: acc)
  case Nil
  then show ?case by simp
next
  case (Cons x xs)
  show ?case
  proof (cases "x \<in> set acc")
    case True
    with Cons [of acc] show ?thesis by (simp add: set_add_def)
  next
    case False
    have "filter (\<lambda>y. y \<notin> set (acc @ [x])) xs = filter (\<lambda>y. y \<noteq> x) (filter (\<lambda>y. y \<notin> set acc) xs)"
      by (auto intro: filter_cong)
    with False Cons [of "acc @ [x]"] show ?thesis by (simp add: set_add_def)
  qed
qed

lemma set_add_all_Nil: "set_add_all [] xs = first_occurrences xs"
  by (simp add: set_add_all_first)

lemma set_first_occurrences: "set (first_occurrences xs) = set xs"
  by (induction xs rule: first_occurrences.induct) auto

lemma distinct_first_occurrences: "distinct (first_occurrences xs)"
  by (induction xs rule: first_occurrences.induct) (auto simp: set_first_occurrences)

lemma set_set_add_all: "set (set_add_all acc xs) = set acc \<union> set xs"
  by (auto simp: set_add_all_first set_first_occurrences)

lemma distinct_set_add_all: "distinct acc \<Longrightarrow> distinct (set_add_all acc xs)"
  by (auto simp: set_add_all_first set_first_occurrences distinct_first_occurrences)

lemma set_set_add: "set (set_add xs x) = insert x (set xs)"
  by (auto simp: set_add_def)

lemma distinct_set_add: "distinct xs \<Longrightarrow> distinct (set_add xs x)"
  by (auto simp: set_add_def)

text \<open>A successful response comes from \<open>explodeDocument\<close>.\<close>

lemma POST_Assets:
  assumes "POST P request = (log, Assets imgs cols fnts)"
  obtains url res html where "request = Body (Some url)" "url \<noteq> []"
    "url_parse P url None \<noteq> None"
    "fetch P url = Responded res" "ok res" "body_text res = Some html"
    "log = url # stylesheetUrls P url (cheerio_load P html)"
    "explodeDocument P url (cheerio_load P html) = Assets imgs cols fnts"
  using assms unfolding POST_def internalError_def
  by (auto simp: Let_def split: request.splits option.splits if_splits fetch_outcome.splits)

lemma explodeDocument_Assets:
  assumes "explodeDocument P url doc = Assets imgs cols fnts"
  shows "imgs = set_add_all (addSrcsets P url doc (addImgSources P url doc []))
                  (extractBackgroundImages P (combinedCss P url doc) url)"
    and "cols = set_add_all [] (extractColors (combinedCss P url doc))"
    and "addGoogleFonts P (set_add_all [] (extractFonts (combinedCss P url doc))) (googleLinks doc)
           = Some fnts"
  using assms unfolding explodeDocument_def internalError_def
  by (auto simp: Let_def split: option.splits)

section \<open>The colour sequence and the colour set\<close>

text \<open>
  Claim C5, as stated, fails: \<open>extractColors\<close> returns one entry for every match, so a
  colour that occurs twice in the text occurs twice in its output.
\<close>

theorem extractColors_repeats:
  "extractColors ''#fff #FFF'' = [''#FFFFFF'', ''#FFFFFF'']
   \<and> \<not> distinct (extractColors ''#fff #FFF'')"
  by code_simp

text \<open>
  Claim C5, amended.  \<open>extractColors\<close> returns the normal forms of the tokens in the order
  of their occurrence in the text, repetitions included; the repetitions go when the
  request handler adds the entries to its colour set: the colours of a successful
  response are the entries of \<open>extractColors\<close> for the combined CSS, each one where it
  first occurs, and no colour occurs twice.
\<close>

theorem explode_colors_first_occurrences:
  "extractColors input = map normalizeColor (spec_color_tokens input)
   \<and> (POST P (Body (Some url)) = (log, Assets imgs cols fnts)
        \<and> fetch P url = Responded res \<and> body_text res = Some html \<longrightarrow>
       cols = first_occurrences (extractColors (combinedCss P url (cheerio_load P html)))
       \<and> distinct cols)"
proof (intro conjI impI)
  show "extractColors input = map normalizeColor (spec_color_tokens input)"
    by (rule extractColors_spec)
next
  assume a: "POST P (Body (Some url)) = (log, Assets imgs cols fnts)
    \<and> fetch P url = Responded res \<and> body_text res = Some html"
  then have "explodeDocument P url (cheerio_load P html) = Assets imgs cols fnts"
    by (auto elim!: POST_Assets)
  from explodeDocument_Assets(2) [OF this]
  show "cols = first_occurrences (extractColors (combinedCss P url (cheerio_load P html)))"
    by (simp add: set_add_all_Nil)
  then show "distinct cols"
    by (simp add: distinct_first_occurrences)
qed

theorem explode_colors_first_occurrences_witness:
  "POST demo_platform (Body (Some ''https://x.com/page'')) =
     ([''https://x.com/page'', ''https://x.com/main.css'', ''https://x.com/gone.css'',
       ''https://fonts.googleapis.com/css?family=Roboto:400,700|Open+Sans''],
      Assets [''https://x.com/a.png'', ''https://x.com/b.png'', ''https://x.com/c.png'']
        [''#FFFFFF'', ''#11AAFF'']
        [''Arial'', ''sans-serif'', ''My Font'', ''Georgia'', ''Roboto''])
   \<and> extractColors (combinedCss demo_platform ''https://x.com/page'' demo_page)
       = [''#FFFFFF'', ''#FFFFFF'', ''#11AAFF'']
   \<and> first_occurrences (extractColors (combinedCss demo_platform ''https://x.com/page'' demo_page))
       = [''#FFFFFF'', ''#11AAFF'']
   \<and> POST demo_platform (Body (Some ''https://x.com/fonts'')) =
     ([''https://x.com/fonts'', ''https://x.com/main.css'',
       ''https://fonts.googleapis.com/css?family=Open+Sans|Roboto+Mono''],
      Assets [] [''#11AAFF''] [''Georgia'', ''Open Sans'', ''Roboto Mono''])
   \<and> first_occurrences (extractColors (combinedCss demo_platform ''https://x.com/fonts'' demo_fonts))
       = [''#11AAFF'']"
proof -
  have post: "POST demo_platform (Body (Some ''https://x.com/page'')) =
     ([''https://x.com/page'', ''https://x.com/main.css'', ''https://x.com/gone.css'',
       ''https://fonts.googleapis.com/css?family=Roboto:400,700|Open+Sans''],
      Assets [''https://x.com/a.png'', ''https://x.com/b.png'', ''https://x.com/c.png'']
        [''#FFFFFF'', ''#11AAFF'']
        [''Arial'', ''sans-serif'', ''My Font'', ''Georgia'', ''Roboto''])"
    by code_simp
  have fetched: "fetch demo_platform ''https://x.com/page''
      = Responded \<lparr>status = 200, statusText = ''OK'', body_text = Some demo_page_html\<rparr>"
    by (simp add: demo_platform_def demo_fetch_def)
  have doc: "cheerio_load demo_platform demo_page_html = demo_page"
    by (simp add: demo_platform_def)
  have cols: "extractColors (combinedCss demo_platform ''https://x.com/page'' demo_page)
       = [''#FFFFFF'', ''#FFFFFF'', ''#11AAFF'']"
    by code_simp
  have body: "body_text \<lparr>status = 200, statusText = ''OK'', body_text = Some demo_page_html\<rparr>
      = Some demo_page_html"
    by simp
  note explode_colors_first_occurrences
    [THEN conjunct2, THEN mp, OF conjI [OF post conjI [OF fetched body]], unfolded doc]
  then have "first_occurrences (extractColors (combinedCss demo_platform ''https://x.com/page'' demo_page))
      = [''#FFFFFF'', ''#11AAFF'']"
    by (rule conjunct1 [THEN sym])
  note first = this
  have post2: "POST demo_platform (Body (Some ''https://x.com/fonts'')) =
     ([''https://x.com/fonts'', ''https://x.com/main.css'',
       ''https://fonts.googleapis.com/css?family=Open+Sans|Roboto+Mono''],
      Assets [] [''#11AAFF''] [''Georgia'', ''Open Sans'', ''Roboto Mono''])"
    by code_simp
  have fetched2: "fetch demo_platform ''https://x.com/fonts''
      = Responded \<lparr>status = 200, statusText = ''OK'', body_text = Some demo_fonts_html\<rparr>"
    by (simp add: demo_platform_def demo_fetch_def)
  have doc2: "cheerio_load demo_platform demo_fonts_html = demo_fonts"
    by code_simp
  have body2: "body_text \<lparr>status = 200, statusText = ''OK'', body_text = Some demo_fonts_html\<rparr>
      = Some demo_fonts_html"
    by simp
  note explode_colors_first_occurrences
    [THEN conjunct2, THEN mp, OF conjI [OF post2 conjI [OF fetched2 body2]], unfolded doc2]
  then have second: "first_occurrences
      (extractColors (combinedCss demo_platform ''https://x.com/fonts'' demo_fonts)) = [''#11AAFF'']"
    by (rule conjunct1 [THEN sym])
  from post cols first post2 second show ?thesis by (intro conjI)
qed

section \<open>Failures of the request handler\<close>

text \<open>
  Claim C2, as stated, fails.  When the fetch of the document itself fails (the promise
  rejects), the exception reaches the outer \<^verbatim>\<open>catch\<close>: the response is the generic
  internal error with status 500, not an upstream-fetch error, and it carries no
  upstream detail.  And for a response with status 404 the message carries the status
  text, \<^verbatim>\<open>Not Found\<close>, not the status code.
\<close>

theorem POST_network_failure_is_internal:
  "fetch demo_platform ''https://x.com/down'' = Rejected
   \<and> POST demo_platform (Body (Some ''https://x.com/down''))
       = ([''https://x.com/down''], Failure 500 ''Internal server error'')
   \<and> \<not> isUpstreamFetchError (snd (POST demo_platform (Body (Some ''https://x.com/down''))))
   \<and> POST demo_platform (Body (Some ''https://x.com/missing''))
       = ([''https://x.com/missing''], Failure 502 ''Failed to fetch URL: Not Found'')
   \<and> \<not> str_includes ''Failed to fetch URL: Not Found'' ''404''"
  by code_simp

text \<open>
  Claim C2, amended.  The handler fails without any network access, with status 400,
  when the target URL is missing or empty (\<^verbatim>\<open>URL is required\<close>) or is rejected by
  \<^verbatim>\<open>new URL\<close> (\<^verbatim>\<open>Invalid URL format\<close>).  When the document is answered with a status that
  is not a success, it fails with status 502 and a message that carries the status text
  of the answer.  When the fetch of the document itself fails, it fails with the generic
  internal error, status 500.  In each case the only address fetched is at most that of
  the document, and no collections are returned.
\<close>

theorem POST_failures:
  "(u = None \<or> u = Some [] \<longrightarrow> POST P (Body u) = ([], Failure 400 ''URL is required''))
   \<and> (url \<noteq> [] \<and> url_parse P url None = None \<longrightarrow>
        POST P (Body (Some url)) = ([], Failure 400 ''Invalid URL format''))
   \<and> (url \<noteq> [] \<and> url_parse P url None \<noteq> None \<and> fetch P url = Responded res \<and> \<not> ok res \<longrightarrow>
        POST P (Body (Some url))
          = ([url], Failure 502 (''Failed to fetch URL: '' @ statusText res)))
   \<and> (url \<noteq> [] \<and> url_parse P url None \<noteq> None \<and> fetch P url = Rejected \<longrightarrow>
        POST P (Body (Some url)) = ([url], Failure 500 ''Internal server error''))"
  by (auto simp: POST_def internalError_def)

theorem POST_failures_witness:
  "POST demo_platform (Body None) = ([], Failure 400 ''URL is required'')
   \<and> POST demo_platform (Body (Some ''x.com'')) = ([], Failure 400 ''Invalid URL format'')
   \<and> POST demo_platform (Body (Some ''https://x.com/missing''))
       = ([''https://x.com/missing''], Failure 502 ''Failed to fetch URL: Not Found'')
   \<and> POST demo_platform (Body (Some ''https://x.com/down''))
       = ([''https://x.com/down''], Failure 500 ''Internal server error'')"
proof -
  have parse: "url_parse demo_platform ''x.com'' None = None"
    "url_parse demo_platform ''https://x.com/missing'' None \<noteq> None"
    "url_parse demo_platform ''https://x.com/down'' None \<noteq> None"
    by (simp_all add: demo_platform_def demo_url_parse_def startsWith_def)
  have missing: "fetch demo_platform ''https://x.com/missing''
      = Responded \<lparr>status = 404, statusText = ''Not Found'', body_text = Some ''<h1>Not Found</h1>''\<rparr>"
    and down: "fetch demo_platform ''https://x.com/down'' = Rejected"
    by (simp_all add: demo_platform_def demo_fetch_def)
  have nok: "\<not> ok \<lparr>status = 404, statusText = ''Not Found'', body_text = Some ''<h1>Not Found</h1>''\<rparr>"
    by (simp add: ok_def)
  have 1: "POST demo_platform (Body None) = ([], Failure 400 ''URL is required'')"
    using POST_failures [where u = None and P = demo_platform, THEN conjunct1] by simp
  have 2: "POST demo_platform (Body (Some ''x.com'')) = ([], Failure 400 ''Invalid URL format'')"
    using POST_failures [where url = "''x.com''" and P = demo_platform, THEN conjunct2, THEN conjunct1] parse(1)
    by simp
  have 3: "POST demo_platform (Body (Some ''https://x.com/missing''))
       = ([''https://x.com/missing''], Failure 502 ''Failed to fetch URL: Not Found'')"
    using POST_failures [where url = "''https://x.com/missing''" and P = demo_platform
        and res = "\<lparr>status = 404, statusText = ''Not Found'', body_text = Some ''<h1>Not Found</h1>''\<rparr>",
        THEN conjunct2, THEN conjunct2, THEN conjunct1] parse(2) missing nok
    by simp
  have 4: "POST demo_platform (Body (Some ''https://x.com/down''))
       = ([''https://x.com/down''], Failure 500 ''Internal server error'')"
    using POST_failures [where url = "''https://x.com/down''" and P = demo_platform,
        THEN conjunct2, THEN conjunct2, THEN conjunct2] parse(3) down
    by simp
  from 1 2 3 4 show ?thesis by blast
qed

section \<open>The three collections\<close>

lemma foldl_invariant:
  "I acc \<Longrightarrow> (\<And>a x. I a \<Longrightarrow> x \<in> set xs \<Longrightarrow> I (f a x)) \<Longrightarrow> I (foldl f acc xs)"
  by (induction xs arbitrary: acc) simp_all

lemma rx_scan_matches:
  "m \<in> set (rx_scan R k p s) \<Longrightarrow> \<exists>st. rx_match_at R st = Some m"
proof (induction s arbitrary: k p)
  case Nil
  then show ?case
    by (cases "rx_match_at R (p, [])"; cases "k = 0") auto
next
  case (Cons x xs)
  show ?case
  proof (cases k)
    case (Suc j)
    with Cons show ?thesis by auto
  next
    case 0
    with Cons show ?thesis
      by (cases "rx_match_at R (p, x # xs)") auto
  qed
qed

lemma rx_paths_grp:
  "(s1, s2, s3) \<in> set (rx_paths R st) \<Longrightarrow> s2 \<in> set (rx_run (icase R) (grp R) s1)"
  unfolding rx_paths_def by auto

lemma group1_nonempty:
  assumes "grp R = Plus (Cls C)" and "rx_match_at R st = Some m"
  shows "group1 m \<noteq> []"
proof -
  from assms(2) obtain s1 s2 s3 more where paths: "rx_paths R st = (s1, s2, s3) # more"
    and m: "group1 m = take (length (snd s1) - length (snd s2)) (snd s1)"
    unfolding rx_match_at_def by (auto split: list.splits)
  from paths have "(s1, s2, s3) \<in> set (rx_paths R st)" by simp
  from rx_paths_grp [OF this] assms(1) have "length (snd s2) < length (snd s1)"
    by (auto dest: plus_cls_shorter)
  with m show ?thesis by auto
qed

lemma imagesOk_set_add:
  "imagesOk P url imgs \<Longrightarrow> ref \<noteq> [] \<Longrightarrow> \<not> startsWith ref ''data:'' \<Longrightarrow>
   imagesOk P url (set_add imgs (resolveUrl P url ref))"
  by (auto simp: imagesOk_def set_add_def resolvedRef_def)

lemma imagesOk_addImgSources:
  "imagesOk P url imgs \<Longrightarrow> imagesOk P url (addImgSources P url doc imgs)"
  unfolding addImgSources_def
  by (rule foldl_invariant) (auto split: option.splits intro: imagesOk_set_add)

lemma imagesOk_addSrcset:
  "imagesOk P url imgs \<Longrightarrow> imagesOk P url (addSrcset P url imgs srcset)"
  unfolding addSrcset_def
  by (rule foldl_invariant) (auto split: list.splits intro: imagesOk_set_add)

lemma imagesOk_addSrcsets:
  "imagesOk P url imgs \<Longrightarrow> imagesOk P url (addSrcsets P url doc imgs)"
  unfolding addSrcsets_def
  by (rule foldl_invariant) (auto split: option.splits intro: imagesOk_addSrcset)

lemma bgRegex_grp: "grp bgRegex = Plus (Cls (noneOf (quotes @ '')'')))"
  by (simp add: bgRegex_def)

lemma extractBackgroundImages_resolved:
  "i \<in> set (extractBackgroundImages P css url) \<Longrightarrow> resolvedRef P url i"
proof -
  assume "i \<in> set (extractBackgroundImages P css url)"
  then obtain m where m: "m \<in> set (rx_match_all bgRegex css)"
    and i: "\<not> startsWith (group1 m) ''data:''" "i = resolveUrl P url (group1 m)"
    by (auto simp: extractBackgroundImages_def Let_def split: if_splits)
  from m obtain st where "rx_match_at bgRegex st = Some m"
    unfolding rx_match_all_def by (auto dest: rx_scan_matches)
  from group1_nonempty [OF bgRegex_grp this] i show ?thesis
    by (auto simp: resolvedRef_def)
qed

lemma imagesOk_set_add_all:
  "imagesOk P url imgs \<Longrightarrow> \<forall>i \<in> set new. resolvedRef P url i \<Longrightarrow>
   imagesOk P url (set_add_all imgs new)"
  by (auto simp: imagesOk_def distinct_set_add_all set_set_add_all)

lemma distinct_addGoogleFonts:
  "distinct fnts \<Longrightarrow> addGoogleFonts P fnts es = Some fnts' \<Longrightarrow> distinct fnts'"
  by (induction es arbitrary: fnts)
     (auto split: option.splits if_splits intro: distinct_set_add_all)

lemma foldl_addDeclaration_aux:
  "foldl (\<lambda>fs font. let cleaned = cleanFont font in
            if cleaned \<noteq> [] \<and> \<not> isCssWideKeyword cleaned then set_add fs cleaned else fs) acc toks
   = foldl set_add acc
       (filter (\<lambda>cleaned. cleaned \<noteq> [] \<and> \<not> isCssWideKeyword cleaned) (map cleanFont toks))"
  by (induction toks arbitrary: acc) (simp_all add: Let_def)

lemma addDeclaration_declaredFonts:
  "addDeclaration acc d = set_add_all acc (declaredFonts d)"
  by (simp add: addDeclaration_def declaredFonts_def set_add_all_def foldl_addDeclaration_aux)

lemma declaredFonts_nonempty: "f \<in> set (declaredFonts d) \<Longrightarrow> f \<noteq> []"
  by (simp add: declaredFonts_def)

lemma first_loop_nonempty:
  "\<forall>f \<in> set (foldl (\<lambda>fs m. addDeclaration fs (trim (group1 m))) [] ms). f \<noteq> []"
  by (rule foldl_invariant)
     (auto simp: addDeclaration_declaredFonts set_set_add_all dest: declaredFonts_nonempty)

lemma explodeDocument_images:
  assumes "explodeDocument P url doc = Assets imgs cols fnts"
  shows "imagesOk P url imgs"
proof -
  have "imagesOk P url []" by (simp add: imagesOk_def)
  then have "imagesOk P url (addSrcsets P url doc (addImgSources P url doc []))"
    by (intro imagesOk_addSrcsets imagesOk_addImgSources)
  then show ?thesis
    unfolding explodeDocument_Assets(1) [OF assms]
    by (rule imagesOk_set_add_all) (auto dest: extractBackgroundImages_resolved)
qed

lemma explodeDocument_distinct_fonts:
  assumes "explodeDocument P url doc = Assets imgs cols fnts"
  shows "distinct fnts"
  using explodeDocument_Assets(3) [OF assms]
  by (rule distinct_addGoogleFonts [rotated]) (simp add: distinct_set_add_all)

text \<open>
  Claim C1, as stated, fails.  The resolver returns a reference that \<^verbatim>\<open>new URL\<close> rejects
  as it is, and the handler adds it to the images: the page with \<^verbatim>\<open><img src="//">\<close> has
  the image \<^verbatim>\<open>//\<close>, which is not an absolute URL.
\<close>

theorem explode_image_not_absolute:
  "POST demo_platform (Body (Some ''https://x.com/edge''))
     = ([''https://x.com/edge'', ''https://x.com/main.css'', ''https://x.com/gone.css''],
        Assets [''//''] [''#11AAFF''] [''Arial'' @ [CHR 0x0A] @ ''h1'', ''Georgia''])
   \<and> \<not> isAbsoluteUrl demo_platform ''//''"
  by code_simp

text \<open>
  Non-emptiness is checked in the first loop of \<open>extractFonts\<close> only: the loop over the
  \<^verbatim>\<open>@font-face\<close> blocks adds the trimmed family as it is, also when nothing is left of
  it, and so does the loop over the font-service links.
\<close>

lemma extractFonts_empty_family:
  "extractFonts ''@font-face{font-family: ;}'' = [[]]"
  by code_simp

text \<open>
  Claim C1, amended.  In the three collections of a successful response no element
  occurs twice.  Every colour is \<^verbatim>\<open>#\<close> with six upper-case hexadecimal digits.  Every
  image is what the resolver returns for a reference that is not empty and does not
  start with \<^verbatim>\<open>data:\<close>; that is the \<^verbatim>\<open>href\<close> of the resolved URL or, where the
  resolution throws, the reference as it is.  Every font that the loop over the
  \<^verbatim>\<open>font-family\<close> declarations adds is non-empty.
\<close>

theorem explode_collections:
  "(POST P (Body (Some url)) = (log, Assets imgs cols fnts) \<longrightarrow>
      distinct imgs \<and> distinct cols \<and> distinct fnts
      \<and> (\<forall>c \<in> set cols. isRRGGBB c)
      \<and> (\<forall>i \<in> set imgs. \<exists>ref. ref \<noteq> [] \<and> \<not> startsWith ref ''data:''
            \<and> i = resolveUrl P url ref
            \<and> (url_parse P ref (Some url) = Some i
                \<or> url_parse P ref (Some url) = None \<and> i = ref)))
   \<and> (\<forall>f \<in> set (foldl (\<lambda>fs m. addDeclaration fs (trim (group1 m))) []
                    (rx_match_all fontFamilyRegex css)). f \<noteq> [])"
proof (intro conjI impI)
  assume "POST P (Body (Some url)) = (log, Assets imgs cols fnts)"
  then obtain html where doc: "explodeDocument P url (cheerio_load P html) = Assets imgs cols fnts"
    by (auto elim!: POST_Assets)
  from explodeDocument_images [OF doc] show "distinct imgs"
    by (simp add: imagesOk_def)
  from explodeDocument_Assets(2) [OF doc] show "distinct cols"
    by (simp add: distinct_set_add_all)
  from explodeDocument_distinct_fonts [OF doc] show "distinct fnts" .
  from explodeDocument_Assets(2) [OF doc] show "\<forall>c \<in> set cols. isRRGGBB c"
    by (auto simp: set_set_add_all dest: extractColors_shape)
  show "\<forall>i \<in> set imgs. \<exists>ref. ref \<noteq> [] \<and> \<not> startsWith ref ''data:''
            \<and> i = resolveUrl P url ref
            \<and> (url_parse P ref (Some url) = Some i
                \<or> url_parse P ref (Some url) = None \<and> i = ref)"
  proof
    fix i assume "i \<in> set imgs"
    with explodeDocument_images [OF doc] obtain ref where
      "ref \<noteq> []" "\<not> startsWith ref ''data:''" "i = resolveUrl P url ref"
      by (auto simp: imagesOk_def resolvedRef_def)
    then show "\<exists>ref. ref \<noteq> [] \<and> \<not> startsWith ref ''data:''
            \<and> i = resolveUrl P url ref
            \<and> (url_parse P ref (Some url) = Some i
                \<or> url_parse P ref (Some url) = None \<and> i = ref)"
      by (intro exI [of _ ref]) (auto simp: resolveUrl_def split: option.splits)
  qed
next
  show "\<forall>f \<in> set (foldl (\<lambda>fs m. addDeclaration fs (trim (group1 m))) []
                    (rx_match_all fontFamilyRegex css)). f \<noteq> []"
    by (rule first_loop_nonempty)
qed

theorem explode_collections_witness:
  "POST demo_platform (Body (Some ''https://x.com/page'')) =
     ([''https://x.com/page'', ''https://x.com/main.css'', ''https://x.com/gone.css'',
       ''https://fonts.googleapis.com/css?family=Roboto:400,700|Open+Sans''],
      Assets [''https://x.com/a.png'', ''https://x.com/b.png'', ''https://x.com/c.png'']
        [''#FFFFFF'', ''#11AAFF'']
        [''Arial'', ''sans-serif'', ''My Font'', ''Georgia'', ''Roboto''])
   \<and> distinct [''https://x.com/a.png'', ''https://x.com/b.png'', ''https://x.com/c.png'']
   \<and> distinct [''Arial'', ''sans-serif'', ''My Font'', ''Georgia'', ''Roboto'']
   \<and> list_all isRRGGBB [''#FFFFFF'', ''#11AAFF'']
   \<and> (\<exists>ref. \<not> startsWith ref ''data:'' \<and> url_parse demo_platform ref (Some ''https://x.com/page'')
          = Some ''https://x.com/a.png'')"
proof -
  have post: "POST demo_platform (Body (Some ''https://x.com/page'')) =
     ([''https://x.com/page'', ''https://x.com/main.css'', ''https://x.com/gone.css'',
       ''https://fonts.googleapis.com/css?family=Roboto:400,700|Open+Sans''],
      Assets [''https://x.com/a.png'', ''https://x.com/b.png'', ''https://x.com/c.png'']
        [''#FFFFFF'', ''#11AAFF'']
        [''Arial'', ''sans-serif'', ''My Font'', ''Georgia'', ''Roboto''])"
    by code_simp
  have abs: "url_parse demo_platform ''https://x.com/a.png'' (Some ''https://x.com/page'')
      = Some ''https://x.com/a.png''"
    by (simp add: demo_platform_def demo_url_parse_def startsWith_def)
  note inst = explode_collections [THEN conjunct1, THEN mp, OF post]
  from inst have d: "distinct [''https://x.com/a.png'', ''https://x.com/b.png'', ''https://x.com/c.png'']"
    "distinct [''Arial'', ''sans-serif'', ''My Font'', ''Georgia'', ''Roboto'']"
    "list_all isRRGGBB [''#FFFFFF'', ''#11AAFF'']"
    by (blast, blast, simp only: list_all_iff, blast)
  from inst have "\<exists>ref. ref \<noteq> [] \<and> \<not> startsWith ref ''data:''
      \<and> ''https://x.com/a.png'' = resolveUrl demo_platform ''https://x.com/page'' ref
      \<and> (url_parse demo_platform ref (Some ''https://x.com/page'') = Some ''https://x.com/a.png''
          \<or> url_parse demo_platform ref (Some ''https://x.com/page'') = None
             \<and> ''https://x.com/a.png'' = ref)"
    by (simp only: list.set) blast
  with abs have "\<exists>ref. \<not> startsWith ref ''data:''
      \<and> url_parse demo_platform ref (Some ''https://x.com/page'') = Some ''https://x.com/a.png''"
    by metis
  with post d show ?thesis by blast
qed

section \<open>Font-service links\<close>

lemma addGoogleFonts_mono:
  "addGoogleFonts P fnts es = Some fnts' \<Longrightarrow> set fnts \<subseteq> set fnts'"
proof (induction es arbitrary: fnts)
  case Nil
  then show ?case by simp
next
  case (Cons e es)
  show ?case
  proof (cases "attr e ''href''")
    case None
    with Cons show ?thesis by simp
  next
    case (Some href)
    show ?thesis
    proof (cases "href = []")
      case True
      with Some Cons show ?thesis by simp
    next
      case False
      with Some Cons.prems obtain families where
        "googleFamilies P href = Some families"
        "addGoogleFonts P (set_add_all fnts families) es = Some fnts'"
        by (auto split: option.splits)
      with Cons.IH [of "set_add_all fnts families"] show ?thesis
        by (auto simp: set_set_add_all)
    qed
  qed
qed

lemma addGoogleFonts_mem:
  "addGoogleFonts P fnts es = Some fnts' \<Longrightarrow> e \<in> set es \<Longrightarrow> attr e ''href'' = Some href \<Longrightarrow>
   href \<noteq> [] \<Longrightarrow> \<exists>families. googleFamilies P href = Some families \<and> set families \<subseteq> set fnts'"
proof (induction es arbitrary: fnts)
  case Nil
  then show ?case by simp
next
  case (Cons x xs)
  show ?case
  proof (cases "e = x")
    case True
    with Cons.prems obtain families where fam: "googleFamilies P href = Some families"
      and rest: "addGoogleFonts P (set_add_all fnts families) xs = Some fnts'"
      by (auto split: option.splits)
    from addGoogleFonts_mono [OF rest] have "set families \<subseteq> set fnts'"
      by (auto simp: set_set_add_all)
    with fam show ?thesis by blast
  next
    case False
    with Cons.prems have mem: "e \<in> set xs" by simp
    from Cons.prems(1) obtain fnts0 where "addGoogleFonts P fnts0 xs = Some fnts'"
      by (auto split: option.splits if_splits)
    from Cons.IH [OF this mem Cons.prems(3,4)] show ?thesis .
  qed
qed

lemma str_includes_nonempty: "str_includes s sub \<Longrightarrow> sub \<noteq> [] \<Longrightarrow> s \<noteq> []"
  by (cases s) auto

lemma stylesheetUrls_mem:
  "e \<in> set doc \<Longrightarrow> tag e = ''link'' \<Longrightarrow> relIsStylesheet e \<Longrightarrow>
   attr e ''href'' = Some href \<Longrightarrow> href \<noteq> [] \<Longrightarrow>
   resolveUrl P url href \<in> set (stylesheetUrls P url doc)"
  unfolding stylesheetUrls_def by (auto intro!: bexI [of _ e])

text \<open>The parts of a split have no separator in them, and joined by the separator
  they give the text back.\<close>

lemma split_on_nonempty: "split_on c s \<noteq> []"
  by (induction s) (auto split: list.splits)

lemma join_split_on: "join [c] (split_on c s) = s"
proof (induction s)
  case Nil
  then show ?case by simp
next
  case (Cons x xs)
  show ?case
  proof (cases "x = c")
    case True
    with Cons split_on_nonempty [of c xs] show ?thesis
      by (cases "split_on c xs") simp_all
  next
    case False
    with Cons split_on_nonempty [of c xs] show ?thesis
      by (cases "split_on c xs"; cases "tl (split_on c xs)") auto
  qed
qed

lemma split_on_no_separator: "part \<in> set (split_on c s) \<Longrightarrow> c \<notin> set part"
proof (induction s arbitrary: part)
  case Nil
  then show ?case by simp
next
  case (Cons x xs)
  then show ?case
    by (cases "split_on c xs") (auto split: if_splits)
qed

lemma plusToSpace_no_plus: "CHR ''+'' \<notin> set (plusToSpace family)"
  by (auto simp: plusToSpace_def)

lemma googleFamilies_Some:
  "googleFamilies P href = Some families \<Longrightarrow>
   (case rx_exec googleFamilyRegex None href of
      None \<Rightarrow> families = []
    | Some m \<Rightarrow> \<exists>decoded. decodeURIComponent P (group1 m) = Some decoded
                 \<and> families = map plusToSpace (split_on CHR ''|'' decoded))"
  unfolding googleFamilies_def by (auto split: option.splits)

text \<open>
  Claim C8, as stated, fails in its last part.  The loop over the style-sheet links
  does not look at the address: a font-service link with \<^verbatim>\<open>rel="stylesheet"\<close> is
  fetched as an external style sheet like every other.
\<close>

theorem explode_fetches_font_service_link:
  "POST demo_platform (Body (Some ''https://x.com/page'')) =
     ([''https://x.com/page'', ''https://x.com/main.css'', ''https://x.com/gone.css'',
       ''https://fonts.googleapis.com/css?family=Roboto:400,700|Open+Sans''],
      Assets [''https://x.com/a.png'', ''https://x.com/b.png'', ''https://x.com/c.png'']
        [''#FFFFFF'', ''#11AAFF'']
        [''Arial'', ''sans-serif'', ''My Font'', ''Georgia'', ''Roboto''])
   \<and> ''https://fonts.googleapis.com/css?family=Roboto:400,700|Open+Sans''
       \<in> set (fst (POST demo_platform (Body (Some ''https://x.com/page''))))"
  by code_simp

text \<open>
  Claim C8, amended.  For every link element of the document of a successful request
  whose address contains \<^verbatim>\<open>fonts.googleapis.com\<close>: where the address has a family
  parameter, its value (as far as \<open>googleFamilyRegex\<close> captures it) is decoded and split
  at every \<^verbatim>\<open>|\<close>, every \<^verbatim>\<open>+\<close> of a part becomes a space, and every resulting name is among
  the fonts of the response.  The link is not exempt from the fetching of style sheets:
  when its \<^verbatim>\<open>rel\<close> is \<^verbatim>\<open>stylesheet\<close>, in any case, its resolved address is fetched as well.
\<close>

theorem explode_font_service_links:
  "POST P (Body (Some url)) = (log, Assets imgs cols fnts)
   \<and> fetch P url = Responded res \<and> body_text res = Some html
   \<and> e \<in> set (cheerio_load P html) \<and> tag e = ''link'' \<and> attr e ''href'' = Some href
   \<and> str_includes href ''fonts.googleapis.com''
   \<longrightarrow> (\<exists>families. googleFamilies P href = Some families \<and> set families \<subseteq> set fnts
          \<and> (case rx_exec googleFamilyRegex None href of
                None \<Rightarrow> families = []
              | Some m \<Rightarrow> \<exists>decoded parts. decodeURIComponent P (group1 m) = Some decoded
                  \<and> join ''|'' parts = decoded \<and> parts \<noteq> []
                  \<and> (\<forall>part \<in> set parts. CHR ''|'' \<notin> set part)
                  \<and> families = map (map (\<lambda>c. if c = CHR ''+'' then CHR '' '' else c)) parts))
       \<and> (relIsStylesheet e \<longrightarrow> resolveUrl P url href \<in> set log)"
proof (intro impI conjI)
  assume a: "POST P (Body (Some url)) = (log, Assets imgs cols fnts)
   \<and> fetch P url = Responded res \<and> body_text res = Some html
   \<and> e \<in> set (cheerio_load P html) \<and> tag e = ''link'' \<and> attr e ''href'' = Some href
   \<and> str_includes href ''fonts.googleapis.com''"
  let ?doc = "cheerio_load P html"
  from a have doc: "explodeDocument P url ?doc = Assets imgs cols fnts"
    and log: "log = url # stylesheetUrls P url ?doc"
    by (auto elim!: POST_Assets)
  from a have ne: "href \<noteq> []"
    by (auto dest: str_includes_nonempty)
  from a have "e \<in> set (googleLinks ?doc)"
    by (simp add: googleLinks_def)
  from addGoogleFonts_mem [OF explodeDocument_Assets(3) [OF doc] this _ ne] a
  obtain families where fam: "googleFamilies P href = Some families" "set families \<subseteq> set fnts"
    by blast
  have "case rx_exec googleFamilyRegex None href of
                None \<Rightarrow> families = []
              | Some m \<Rightarrow> \<exists>decoded parts. decodeURIComponent P (group1 m) = Some decoded
                  \<and> join ''|'' parts = decoded \<and> parts \<noteq> []
                  \<and> (\<forall>part \<in> set parts. CHR ''|'' \<notin> set part)
                  \<and> families = map (map (\<lambda>c. if c = CHR ''+'' then CHR '' '' else c)) parts"
  proof (cases "rx_exec googleFamilyRegex None href")
    case None
    with googleFamilies_Some [OF fam(1)] show ?thesis by simp
  next
    case (Some m)
    with googleFamilies_Some [OF fam(1)] obtain decoded where
      d: "decodeURIComponent P (group1 m) = Some decoded"
        "families = map plusToSpace (split_on CHR ''|'' decoded)"
      by auto
    let ?parts = "split_on CHR ''|'' decoded"
    have "join ''|'' ?parts = decoded" "?parts \<noteq> []" "\<forall>part \<in> set ?parts. CHR ''|'' \<notin> set part"
      by (simp_all add: join_split_on split_on_nonempty split_on_no_separator)
    moreover from d(2)
    have "families = map (map (\<lambda>c. if c = CHR ''+'' then CHR '' '' else c)) ?parts"
      by (simp add: plusToSpace_def)
    ultimately show ?thesis
      using Some d(1) by auto
  qed
  with fam
  show "\<exists>families. googleFamilies P href = Some families \<and> set families \<subseteq> set fnts
          \<and> (case rx_exec googleFamilyRegex None href of
                None \<Rightarrow> families = []
              | Some m \<Rightarrow> \<exists>decoded parts. decodeURIComponent P (group1 m) = Some decoded
                  \<and> join ''|'' parts = decoded \<and> parts \<noteq> []
                  \<and> (\<forall>part \<in> set parts. CHR ''|'' \<notin> set part)
                  \<and> families = map (map (\<lambda>c. if c = CHR ''+'' then CHR '' '' else c)) parts)"
    by blast
  show "resolveUrl P url href \<in> set log" if "relIsStylesheet e"
    using a that ne unfolding log by (auto intro: stylesheetUrls_mem)
qed

theorem explode_font_service_links_witness:
  "POST demo_platform (Body (Some ''https://x.com/fonts'')) =
     ([''https://x.com/fonts'', ''https://x.com/main.css'',
       ''https://fonts.googleapis.com/css?family=Open+Sans|Roboto+Mono''],
      Assets [] [''#11AAFF''] [''Georgia'', ''Open Sans'', ''Roboto Mono''])
   \<and> googleFamilies demo_platform
        ''https://fonts.googleapis.com/css?family=Open+Sans|Roboto+Mono''
       = Some [''Open Sans'', ''Roboto Mono'']
   \<and> set [''Open Sans'', ''Roboto Mono''] \<subseteq> set [''Georgia'', ''Open Sans'', ''Roboto Mono'']
   \<and> resolveUrl demo_platform ''https://x.com/fonts''
         ''https://fonts.googleapis.com/css?family=Open+Sans|Roboto+Mono''
       \<in> set [''https://x.com/fonts'', ''https://x.com/main.css'',
              ''https://fonts.googleapis.com/css?family=Open+Sans|Roboto+Mono'']"
proof -
  let ?url = "''https://x.com/fonts''"
  let ?href = "''https://fonts.googleapis.com/css?family=Open+Sans|Roboto+Mono''"
  let ?res = "\<lparr>status = 200, statusText = ''OK'', body_text = Some demo_fonts_html\<rparr>"
  let ?e = "\<lparr>tag = ''link'', attrs = [(''rel'', ''STYLESHEET''), (''href'', ?href)], innerHtml = []\<rparr>"
  have post: "POST demo_platform (Body (Some ?url)) =
     ([''https://x.com/fonts'', ''https://x.com/main.css'',
       ''https://fonts.googleapis.com/css?family=Open+Sans|Roboto+Mono''],
      Assets [] [''#11AAFF''] [''Georgia'', ''Open Sans'', ''Roboto Mono''])"
    by code_simp
  have fetched: "fetch demo_platform ?url = Responded ?res"
    by (simp add: demo_platform_def demo_fetch_def)
  have body: "body_text ?res = Some demo_fonts_html"
    by simp
  have elem: "?e \<in> set (cheerio_load demo_platform demo_fonts_html)"
    by code_simp
  have link: "tag ?e = ''link''" "attr ?e ''href'' = Some ?href" "relIsStylesheet ?e"
    by code_simp+
  have inc: "str_includes ?href ''fonts.googleapis.com''"
    by code_simp
  have fam: "googleFamilies demo_platform ?href = Some [''Open Sans'', ''Roboto Mono'']"
    by code_simp
  note inst = explode_font_service_links [THEN mp, OF conjI [OF post conjI [OF fetched
      conjI [OF body conjI [OF elem conjI [OF link(1) conjI [OF link(2) inc]]]]]]]
  from inst [THEN conjunct1] obtain families where
    f: "googleFamilies demo_platform ?href = Some families"
    and sub: "set families \<subseteq> set [''Georgia'', ''Open Sans'', ''Roboto Mono'']"
    by (elim exE conjE)
  from f fam have "families = [''Open Sans'', ''Roboto Mono'']"
    by (simp only: option.inject)
  with sub have 1: "set [''Open Sans'', ''Roboto Mono'']
      \<subseteq> set [''Georgia'', ''Open Sans'', ''Roboto Mono'']"
    by (simp only:)
  note 2 = inst [THEN conjunct2, THEN mp, OF link(3)]
  from post fam 1 2 show ?thesis by (intro conjI)
qed

section \<open>The family parameter of a font-service link\<close>

lemma googleFamilyRegex_sel:
  "icase googleFamilyRegex = True" "pre googleFamilyRegex = lit ''family=''"
  "grp googleFamilyRegex = Plus (Cls (noneOf ''&:''))" "post googleFamilyRegex = Eps"
  by (simp_all add: googleFamilyRegex_def)

lemma ci_family: "ci_eq True k ''family='' = isFamilyKey k"
  by (simp add: ci_eq_def upperChar_def isFamilyKey_def)

lemma take_takeWhile_drop:
  assumes "n \<le> length s"
  shows "take (length s - length (dropWhile C (drop n s))) s = take n s @ takeWhile C (drop n s)"
proof -
  let ?d = "drop n s"
  have len: "length ?d = length (takeWhile C ?d) + length (dropWhile C ?d)"
    by (metis length_append takeWhile_dropWhile_id)
  with assms have "length s - length (dropWhile C ?d) = n + length (takeWhile C ?d)"
    by simp
  moreover have "take (n + length (takeWhile C ?d)) s = take n s @ take (length (takeWhile C ?d)) ?d"
    by (simp add: take_add)
  ultimately show ?thesis
    by (simp add: takeWhile_eq_take [symmetric])
qed

lemma take_length_dropWhile:
  "take (length d - length (dropWhile C d)) d = takeWhile C d"
  using take_takeWhile_drop [of 0 d C] by simp

lemma lit_run_family:
  "rx_run True (lit ''family='') (p, s) =
     (if 7 \<le> length s \<and> isFamilyKey (take 7 s)
      then [(consumed (take 7 s) p, drop 7 s)] else [])"
proof -
  have L: "length ''family='' = 7" by simp
  show ?thesis
    using lit_run [of True "''family=''" p s] unfolding L by (simp only: ci_family)
qed

lemma take_length_dropWhile_drop:
  "take (length s - (n + length (dropWhile C (drop n s)))) (drop n s) = takeWhile C (drop n s)"
  using take_length_dropWhile [of "drop n s" C] by simp

text \<open>At one position: \<^verbatim>\<open>family=\<close> in any case, and then the longest run without
  \<^verbatim>\<open>&\<close> and \<^verbatim>\<open>:\<close>, which must not be empty.\<close>

lemma google_match_at:
  "rx_match_at googleFamilyRegex (p, s) =
     (if 7 \<le> length s \<and> isFamilyKey (take 7 s)
         \<and> takeWhile (noneOf ''&:'') (drop 7 s) \<noteq> []
      then Some \<lparr>whole = take 7 s @ takeWhile (noneOf ''&:'') (drop 7 s),
                  group1 = takeWhile (noneOf ''&:'') (drop 7 s)\<rparr>
      else None)"
proof (cases "7 \<le> length s \<and> isFamilyKey (take 7 s)")
  case False
  then have "rx_run True (lit ''family='') (p, s) = []"
    by (simp only: lit_run_family if_False)
  then have "rx_match_at googleFamilyRegex (p, s) = None"
    by (intro rx_match_at_pre_fails) (simp only: googleFamilyRegex_sel)
  moreover from False
  have "\<not> (7 \<le> length s \<and> isFamilyKey (take 7 s)
         \<and> takeWhile (noneOf ''&:'') (drop 7 s) \<noteq> [])"
    by (simp only: conj_assoc [symmetric] simp_thms not_False_eq_True)
  ultimately show ?thesis
    by (simp only: if_False)
next
  case True
  then have pre: "rx_run True (lit ''family='') (p, s) = [(consumed (take 7 s) p, drop 7 s)]"
    by (simp only: lit_run_family if_True simp_thms)
  show ?thesis
  proof (cases "takeWhile (noneOf ''&:'') (drop 7 s) = []")
    case empty: True
    then have "rx_run True (Plus (Cls (noneOf ''&:''))) (consumed (take 7 s) p, drop 7 s) = []"
      by (rule plus_cls_empty)
    then have "rx_paths googleFamilyRegex (p, s) = []"
      unfolding rx_paths_def by (simp only: googleFamilyRegex_sel pre list.map concat.simps append_Nil2)
    with empty show ?thesis
      by (simp add: rx_match_at_def)
  next
    case False
    from plus_cls_head [OF False, of True "consumed (take 7 s) p"] obtain ys where
      grp: "rx_run True (Plus (Cls (noneOf ''&:''))) (consumed (take 7 s) p, drop 7 s)
        = (Some (last (takeWhile (noneOf ''&:'') (drop 7 s))), dropWhile (noneOf ''&:'') (drop 7 s)) # ys"
      by blast
    have "rx_match_at googleFamilyRegex (p, s) =
       Some \<lparr>whole = take (length (snd (p, s))
                  - length (snd (Some (last (takeWhile (noneOf ''&:'') (drop 7 s))),
                       dropWhile (noneOf ''&:'') (drop 7 s)))) (snd (p, s)),
             group1 = take (length (snd (consumed (take 7 s) p, drop 7 s))
                  - length (snd (Some (last (takeWhile (noneOf ''&:'') (drop 7 s))),
                       dropWhile (noneOf ''&:'') (drop 7 s))))
                 (snd (consumed (take 7 s) p, drop 7 s))\<rparr>"
      by (rule rx_match_at_head [where xs = "[]" and ys = ys and zs = "[]"])
         (simp_all only: googleFamilyRegex_sel pre grp rx_run.simps(3))
    with True False show ?thesis
      by (simp add: take_takeWhile_drop take_length_dropWhile_drop)
  qed
qed

lemma rx_exec_Some:
  "rx_exec R p s = Some m \<Longrightarrow> \<exists>a b q. s = a @ b \<and> rx_match_at R (q, b) = Some m"
proof (induction s arbitrary: p)
  case Nil
  then show ?case by auto
next
  case (Cons x xs)
  show ?case
  proof (cases "rx_match_at R (p, x # xs)")
    case None
    with Cons.prems have "rx_exec R (Some x) xs = Some m" by simp
    from Cons.IH [OF this] obtain a b q where "xs = a @ b" "rx_match_at R (q, b) = Some m"
      by blast
    then have "x # xs = (x # a) @ b \<and> rx_match_at R (q, b) = Some m" by simp
    then show ?thesis by blast
  next
    case (Some m')
    with Cons.prems have "x # xs = [] @ (x # xs) \<and> rx_match_at R (p, x # xs) = Some m" by simp
    then show ?thesis by blast
  qed
qed

lemma rx_exec_skip:
  assumes "\<forall>a1 a2 q. a = a1 @ a2 \<and> a2 \<noteq> [] \<longrightarrow> rx_match_at R (q, a2 @ b) = None"
  shows "rx_exec R p (a @ b) = rx_exec R (consumed a p) b"
  using assms
proof (induction a arbitrary: p)
  case Nil
  then show ?case by (simp add: consumed_def)
next
  case (Cons x xs)
  from Cons.prems have "rx_match_at R (p, (x # xs) @ b) = None"
    by (metis append_Nil list.distinct(1))
  moreover have "\<forall>a1 a2 q. xs = a1 @ a2 \<and> a2 \<noteq> [] \<longrightarrow> rx_match_at R (q, a2 @ b) = None"
    using Cons.prems by (metis append_Cons)
  from Cons.IH [OF this, of "Some x"] have "rx_exec R (Some x) (xs @ b) = rx_exec R (consumed xs (Some x)) b" .
  ultimately show ?case
    by (simp add: consumed_def)
qed

lemma rx_exec_here:
  "rx_match_at R (p, s) = Some m \<Longrightarrow> rx_exec R p s = Some m"
  by (cases s) simp_all

lemma noneOf_amp_colon: "noneOf ''&:'' c = (c \<noteq> CHR ''&'' \<and> c \<noteq> CHR '':'')"
  by (simp add: noneOf_def)

lemma family_key_length: "isFamilyKey key \<Longrightarrow> length key = 7"
  unfolding isFamilyKey_def by (drule arg_cong [where f = length]) simp

lemma google_capture_sound:
  assumes "rx_exec googleFamilyRegex None href = Some m"
  shows "\<exists>before key rest. href = before @ key @ group1 m @ rest
         \<and> map upperChar key = ''FAMILY=''
         \<and> group1 m \<noteq> [] \<and> (\<forall>c \<in> set (group1 m). c \<noteq> CHR ''&'' \<and> c \<noteq> CHR '':'')
         \<and> (rest = [] \<or> hd rest = CHR ''&'' \<or> hd rest = CHR '':'')"
proof -
  from rx_exec_Some [OF assms] obtain a b q where href: "href = a @ b"
    and m: "rx_match_at googleFamilyRegex (q, b) = Some m"
    by blast
  let ?tw = "takeWhile (noneOf ''&:'') (drop 7 b)"
  let ?dw = "dropWhile (noneOf ''&:'') (drop 7 b)"
  from m have c: "7 \<le> length b" "isFamilyKey (take 7 b)" "?tw \<noteq> []"
    and g: "group1 m = ?tw"
    by (auto simp: google_match_at split: if_splits)
  have "b = take 7 b @ ?tw @ ?dw"
    by simp
  with href have "href = a @ take 7 b @ group1 m @ ?dw"
    by (simp only: g)
  moreover have "\<forall>c \<in> set (group1 m). c \<noteq> CHR ''&'' \<and> c \<noteq> CHR '':''"
    unfolding g by (metis noneOf_amp_colon set_takeWhileD)
  moreover have "?dw = [] \<or> hd ?dw = CHR ''&'' \<or> hd ?dw = CHR '':''"
    by (metis hd_dropWhile noneOf_amp_colon)
  moreover from c(2) have "map upperChar (take 7 b) = ''FAMILY=''"
    by (simp only: isFamilyKey_def)
  moreover from c(3) have "group1 m \<noteq> []"
    by (simp only: g not_False_eq_True)
  ultimately show ?thesis
    by (intro exI [of _ a] exI [of _ "take 7 b"] exI [of _ ?dw] conjI)
qed

lemma google_first_segment:
  assumes key0: "map upperChar key = ''FAMILY=''"
    and earlier0: "\<forall>i \<in> {0..<length before}. map upperChar (take 7 (drop i (before @ key))) \<noteq> ''FAMILY=''"
    and name: "name \<noteq> []"
    and name0: "\<forall>c \<in> set name. c \<noteq> CHR ''&'' \<and> c \<noteq> CHR '':''"
    and rest0: "rest = [] \<or> hd rest = CHR ''&'' \<or> hd rest = CHR '':''"
    and dec: "decodeURIComponent P name = Some decoded"
  shows "googleFamilies P (before @ key @ name @ rest)
             = Some (map plusToSpace (split_on CHR ''|'' decoded))"
proof -
  from key0 have key: "isFamilyKey key"
    by (simp only: isFamilyKey_def)
  from earlier0 have earlier: "\<forall>i \<in> {0..<length before}. \<not> isFamilyKey (take 7 (drop i (before @ key)))"
    by (simp only: isFamilyKey_def)
  from name0 have cls: "\<forall>c \<in> set name. noneOf ''&:'' c"
    by (simp only: noneOf_amp_colon)
  from rest0 have rest: "rest = [] \<or> \<not> noneOf ''&:'' (hd rest)"
    unfolding noneOf_amp_colon by blast
  from key have len: "length key = 7"
    by (rule family_key_length)
  have none: "rx_match_at googleFamilyRegex (q, a2 @ key @ name @ rest) = None"
    if "before = a1 @ a2" "a2 \<noteq> []" for a1 a2 q
  proof -
    from that have i: "length a1 \<in> {0..<length before}" and d: "drop (length a1) (before @ key) = a2 @ key"
      by simp_all
    from earlier i have "\<not> isFamilyKey (take 7 (drop (length a1) (before @ key)))"
      by blast
    with d len have "\<not> isFamilyKey (take 7 (a2 @ key @ name @ rest))"
      by simp
    then show ?thesis
      by (simp add: google_match_at)
  qed
  have tw: "takeWhile (noneOf ''&:'') (name @ rest) = name"
    using cls rest by (rule takeWhile_run(1))
  from key len name have here: "rx_match_at googleFamilyRegex (consumed before None, key @ name @ rest)
      = Some \<lparr>whole = key @ name, group1 = name\<rparr>"
    by (simp add: google_match_at tw)
  have "rx_exec googleFamilyRegex None (before @ key @ name @ rest)
      = rx_exec googleFamilyRegex (consumed before None) (key @ name @ rest)"
    by (rule rx_exec_skip) (use none in blast)
  also have "\<dots> = Some \<lparr>whole = key @ name, group1 = name\<rparr>"
    using here by (rule rx_exec_here)
  finally show ?thesis
    using dec by (simp add: googleFamilies_def)
qed

text \<open>
  Claim C10.  What \<open>googleFamilyRegex\<close> captures of the address of a font-service link
  follows a \<^verbatim>\<open>family=\<close> (in any case), is not empty, has no \<^verbatim>\<open>&\<close> and no \<^verbatim>\<open>:\<close> in it, and
  ends where the address ends or where the first \<^verbatim>\<open>&\<close> or \<^verbatim>\<open>:\<close> stands.  For an address
  whose first \<^verbatim>\<open>family=\<close> is followed by such a text, the family names are the parts of
  that text alone, decoded: what the address has behind it, a weight as in
  \<^verbatim>\<open>family=Roboto:400\<close> or further families, does not count.
\<close>

theorem googleFamilies_first_segment:
  "(rx_exec googleFamilyRegex None href = Some m \<longrightarrow>
      (\<exists>before key rest. href = before @ key @ group1 m @ rest
         \<and> map upperChar key = ''FAMILY=''
         \<and> group1 m \<noteq> [] \<and> (\<forall>c \<in> set (group1 m). c \<noteq> CHR ''&'' \<and> c \<noteq> CHR '':'')
         \<and> (rest = [] \<or> hd rest = CHR ''&'' \<or> hd rest = CHR '':'')))
   \<and> (map upperChar key = ''FAMILY=''
        \<and> (\<forall>i \<in> {0..<length before}. map upperChar (take 7 (drop i (before @ key))) \<noteq> ''FAMILY='')
        \<and> name \<noteq> [] \<and> (\<forall>c \<in> set name. c \<noteq> CHR ''&'' \<and> c \<noteq> CHR '':'')
        \<and> (rest' = [] \<or> hd rest' = CHR ''&'' \<or> hd rest' = CHR '':'')
        \<and> decodeURIComponent P name = Some decoded
       \<longrightarrow> googleFamilies P (before @ key @ name @ rest')
             = Some (map plusToSpace (split_on CHR ''|'' decoded)))"
proof (intro conjI impI)
  assume "rx_exec googleFamilyRegex None href = Some m"
  then show "\<exists>before key rest. href = before @ key @ group1 m @ rest
         \<and> map upperChar key = ''FAMILY=''
         \<and> group1 m \<noteq> [] \<and> (\<forall>c \<in> set (group1 m). c \<noteq> CHR ''&'' \<and> c \<noteq> CHR '':'')
         \<and> (rest = [] \<or> hd rest = CHR ''&'' \<or> hd rest = CHR '':'')"
    by (rule google_capture_sound)
next
  assume "map upperChar key = ''FAMILY=''
        \<and> (\<forall>i \<in> {0..<length before}. map upperChar (take 7 (drop i (before @ key))) \<noteq> ''FAMILY='')
        \<and> name \<noteq> [] \<and> (\<forall>c \<in> set name. c \<noteq> CHR ''&'' \<and> c \<noteq> CHR '':'')
        \<and> (rest' = [] \<or> hd rest' = CHR ''&'' \<or> hd rest' = CHR '':'')
        \<and> decodeURIComponent P name = Some decoded"
  then show "googleFamilies P (before @ key @ name @ rest')
             = Some (map plusToSpace (split_on CHR ''|'' decoded))"
    by (elim conjE) (rule google_first_segment)
qed

theorem googleFamilies_first_segment_witness:
  "rx_exec googleFamilyRegex None
       ''https://fonts.googleapis.com/css?family=Roboto:400,700|Open+Sans''
     = Some \<lparr>whole = ''family=Roboto'', group1 = ''Roboto''\<rparr>
   \<and> (\<exists>before key rest.
         ''https://fonts.googleapis.com/css?family=Roboto:400,700|Open+Sans''
           = before @ key @ ''Roboto'' @ rest
         \<and> map upperChar key = ''FAMILY=''
         \<and> ''Roboto'' \<noteq> [] \<and> (\<forall>c \<in> set ''Roboto''. c \<noteq> CHR ''&'' \<and> c \<noteq> CHR '':'')
         \<and> (rest = [] \<or> hd rest = CHR ''&'' \<or> hd rest = CHR '':''))
   \<and> googleFamilies demo_platform
         (''https://fonts.googleapis.com/css?'' @ ''family='' @ ''Roboto'' @ '':400,700|Open+Sans'')
       = Some [''Roboto'']"
proof -
  let ?href = "''https://fonts.googleapis.com/css?family=Roboto:400,700|Open+Sans''"
  let ?m = "\<lparr>whole = ''family=Roboto'', group1 = ''Roboto''\<rparr>"
  have ex: "rx_exec googleFamilyRegex None ?href = Some ?m"
    by code_simp
  have 1: "\<exists>before key rest. ?href = before @ key @ ''Roboto'' @ rest
         \<and> map upperChar key = ''FAMILY=''
         \<and> ''Roboto'' \<noteq> [] \<and> (\<forall>c \<in> set ''Roboto''. c \<noteq> CHR ''&'' \<and> c \<noteq> CHR '':'')
         \<and> (rest = [] \<or> hd rest = CHR ''&'' \<or> hd rest = CHR '':'')"
    using googleFamilies_first_segment
      [where href = ?href and m = ?m, THEN conjunct1, THEN mp, OF ex]
    by (simp only: rmatch.select_convs)
  have h: "map upperChar ''family='' = ''FAMILY=''"
    "\<forall>i \<in> {0..<length ''https://fonts.googleapis.com/css?''}.
        map upperChar (take 7 (drop i (''https://fonts.googleapis.com/css?'' @ ''family='')))
          \<noteq> ''FAMILY=''"
    "''Roboto'' \<noteq> []" "\<forall>c \<in> set ''Roboto''. c \<noteq> CHR ''&'' \<and> c \<noteq> CHR '':''"
    "'':400,700|Open+Sans'' = [] \<or> hd '':400,700|Open+Sans'' = CHR ''&''
       \<or> hd '':400,700|Open+Sans'' = CHR '':''"
    by code_simp+
  have dec: "decodeURIComponent demo_platform ''Roboto'' = Some ''Roboto''"
    by (simp add: demo_platform_def)
  have names: "map plusToSpace (split_on CHR ''|'' ''Roboto'') = [''Roboto'']"
    by code_simp
  have 2: "googleFamilies demo_platform
         (''https://fonts.googleapis.com/css?'' @ ''family='' @ ''Roboto'' @ '':400,700|Open+Sans'')
       = Some [''Roboto'']"
    using googleFamilies_first_segment [where P = demo_platform and key = "''family=''"
      and before = "''https://fonts.googleapis.com/css?''" and name = "''Roboto''"
      and rest' = "'':400,700|Open+Sans''" and decoded = "''Roboto''",
      THEN conjunct2, THEN mp,
      OF conjI [OF h(1) conjI [OF h(2) conjI [OF h(3) conjI [OF h(4) conjI [OF h(5) dec]]]]]]
    by (simp only: names)
  from ex 1 2 show ?thesis by (intro conjI)
qed

section \<open>The font-family declarations\<close>

lemma lit_full:
  "(\<exists>st \<in> set (rx_run True (lit w) (p, c)). snd st = []) = (map upperChar c = map upperChar w)"
proof -
  have "length c = length w" if "map upperChar c = map upperChar w"
    using that by (metis length_map)
  then show ?thesis
    by (auto simp: lit_run ci_eq_def simp del: lit.simps)
qed

lemma isCssWideKeyword_iff:
  "isCssWideKeyword c = (map upperChar c \<in> set [''INHERIT'', ''INITIAL'', ''UNSET'', ''NONE''])"
proof -
  have up: "map upperChar ''inherit'' = ''INHERIT''" "map upperChar ''initial'' = ''INITIAL''"
    "map upperChar ''unset'' = ''UNSET''" "map upperChar ''none'' = ''NONE''"
    by (simp_all add: upperChar_def)
  have "isCssWideKeyword c =
      ((\<exists>st \<in> set (rx_run True (lit ''inherit'') (None, c)). snd st = [])
       \<or> (\<exists>st \<in> set (rx_run True (lit ''initial'') (None, c)). snd st = [])
       \<or> (\<exists>st \<in> set (rx_run True (lit ''unset'') (None, c)). snd st = [])
       \<or> (\<exists>st \<in> set (rx_run True (lit ''none'') (None, c)). snd st = []))"
    unfolding isCssWideKeyword_def rx_run.simps(6) set_append by blast
  then show ?thesis
    by (simp only: lit_full up list.set insert_iff empty_iff simp_thms)
qed

lemma set_declaredFonts:
  "(f \<in> set (declaredFonts d)) =
     (\<exists>tok \<in> set (split_on CHR '','' d). f = filter (\<lambda>c. \<not> isQuote c) (trim tok) \<and> f \<noteq> []
        \<and> map upperChar f \<notin> set [''INHERIT'', ''INITIAL'', ''UNSET'', ''NONE''])"
  unfolding declaredFonts_def cleanFont_def isCssWideKeyword_iff by auto

lemma set_first_loop:
  "set (foldl (\<lambda>fs m. addDeclaration fs (trim (group1 m))) acc ms)
     = set acc \<union> (\<Union>m \<in> set ms. set (declaredFonts (trim (group1 m))))"
  by (induction ms arbitrary: acc) (auto simp: addDeclaration_declaredFonts set_set_add_all)

lemma addFontFace_mono: "set fs \<subseteq> set (addFontFace fs blk)"
  by (auto simp: addFontFace_def set_set_add split: option.splits)

lemma second_loop_mono:
  "set acc \<subseteq> set (foldl (\<lambda>fs m. addFontFace fs (group1 m)) acc ms)"
proof (induction ms arbitrary: acc)
  case Nil
  then show ?case by simp
next
  case (Cons m ms)
  from Cons [of "addFontFace acc (group1 m)"] addFontFace_mono [of acc "group1 m"]
  show ?case by auto
qed

lemma extractFonts_declared:
  "m \<in> set (rx_match_all fontFamilyRegex css) \<Longrightarrow>
   set (declaredFonts (trim (group1 m))) \<subseteq> set (extractFonts css)"
  unfolding extractFonts_def Let_def
  using second_loop_mono
    [of "foldl (\<lambda>fs m. addDeclaration fs (trim (group1 m))) [] (rx_match_all fontFamilyRegex css)"
        "rx_match_all fontFaceRegex css"]
  by (auto simp: set_first_loop)

lemma fontFamilyRegex_needs_char: "rx_needs_char fontFamilyRegex"
  by (simp add: rx_needs_char_def rx_match_at_def rx_paths_def fontFamilyRegex_def)

lemma fontFamilyRegex_avoids:
  assumes "t \<in> set '';{}''"
  shows "rx_avoids_all fontFamilyRegex t"
proof -
  from assms consider "t = CHR '';''" | "t = CHR ''{''" | "t = CHR ''}''"
    by auto
  then show ?thesis
    by cases
      (simp_all add: rx_avoids_all_def fontFamilyRegex_def upperChar_def isSpace_def noneOf_def
        isWordChar_def Plus_def)
qed

lemma trim_dropWhile: "trim (dropWhile isSpace v) = trim v"
  by (simp add: trim_def)

lemma rx_scan_here:
  assumes "rx_match_at R (p, s) = Some m" "s \<noteq> []"
  shows "m \<in> set (rx_scan R 0 p s)"
  using assms by (cases s) simp_all

lemma consumed_Cons: "consumed (x # xs) p = consumed xs (Some x)"
  by (simp add: consumed_def)

lemma consumed_append: "consumed (a @ b) p = consumed b (consumed a p)"
  by (simp add: consumed_def)

text \<open>The scan passes over a text in which no match can start.\<close>

lemma rx_scan_pass:
  assumes "\<forall>a1 a2 q. a = a1 @ a2 \<and> a2 \<noteq> [] \<longrightarrow> rx_match_at R (q, a2 @ s) = None"
  shows "rx_scan R 0 p (a @ s) = rx_scan R 0 (consumed a p) s"
  using assms
proof (induction a arbitrary: p)
  case Nil
  then show ?case by (simp add: consumed_def)
next
  case (Cons x xs)
  from Cons.prems have "rx_match_at R (p, (x # xs) @ s) = None"
    by (metis append_Nil list.distinct(1))
  moreover have "\<forall>a1 a2 q. xs = a1 @ a2 \<and> a2 \<noteq> [] \<longrightarrow> rx_match_at R (q, a2 @ s) = None"
    using Cons.prems by (metis append_Cons)
  from Cons.IH [OF this, of "Some x"]
  have "rx_scan R 0 (Some x) (xs @ s) = rx_scan R 0 (consumed xs (Some x)) s" .
  ultimately show ?case
    by (simp add: consumed_Cons)
qed

text \<open>No match starts where the word that the regular expression begins with does not
  stand.\<close>

lemma absent_suffix:
  "absent key (a1 @ a2) rest \<Longrightarrow> a2 \<noteq> [] \<Longrightarrow> \<not> ci_eq True (take (length key) (a2 @ rest)) key"
proof (induction a1)
  case Nil
  then show ?case by (cases a2) simp_all
next
  case (Cons y ys)
  then show ?case by simp
qed

lemma absent_more:
  "length key \<le> length w \<Longrightarrow> absent key g (w @ t) = absent key g w"
proof (induction g)
  case Nil
  then show ?case by simp
next
  case (Cons x xs)
  from Cons.prems have "take (length key) ((x # xs @ w) @ t) = take (length key) (x # xs @ w)"
    by (simp only: take_append) simp
  with Cons show ?case by simp
qed

lemma lit_start_fails:
  "\<not> ci_eq ic (take (length key) s) key \<Longrightarrow> rx_run ic (Seq (lit key) r) (q, s) = []"
  by (simp add: lit_run del: lit.simps)

lemma match_needs_key:
  assumes "pre R = Seq (lit key) r" "icase R"
    and "\<not> ci_eq True (take (length key) s) key"
  shows "rx_match_at R (q, s) = None"
proof -
  from assms(3) have "rx_run True (Seq (lit key) r) (q, s) = []"
    by (rule lit_start_fails)
  with assms(1,2) have "rx_run (icase R) (pre R) (q, s) = []"
    by (simp only: eqTrueI)
  then show ?thesis by (rule rx_match_at_pre_fails)
qed

lemma absent_no_match:
  assumes "pre R = Seq (lit key) r" "icase R" "length key \<le> length w" "absent key g w"
  shows "\<forall>a1 a2 q. g = a1 @ a2 \<and> a2 \<noteq> [] \<longrightarrow> rx_match_at R (q, a2 @ w @ t) = None"
proof (intro allI impI)
  fix a1 a2 q assume "g = a1 @ a2 \<and> a2 \<noteq> []"
  moreover from assms(3,4) have "absent key g (w @ t)" by (simp only: absent_more)
  ultimately have "\<not> ci_eq True (take (length key) (a2 @ w @ t)) key"
    by (auto dest: absent_suffix)
  with assms(1,2) show "rx_match_at R (q, a2 @ w @ t) = None"
    by (rule match_needs_key)
qed

lemma fontFamilyRegex_key:
  "pre fontFamilyRegex = Seq (lit ''font-family'')
             (Seq (Star (Cls isSpace)) (Seq (Chr CHR '':'') (Star (Cls isSpace))))"
  "icase fontFamilyRegex"
  by (simp_all add: fontFamilyRegex_def del: lit.simps)

lemma fontFamily_scan_mem:
  assumes w: "length w = 11" "map upperChar w = ''FONT-FAMILY''"
    and ws: "\<forall>c \<in> set ws. isSpace c"
    and v: "\<forall>c \<in> set v. noneOf '';{}'' c" "\<exists>c \<in> set v. \<not> isSpace c"
    and before: "a = [] \<or> last a \<in> set '';{}''"
    and between: "absent ''font-family'' g w"
    and after: "b = [] \<or> \<not> noneOf '';{}'' (hd b)"
  shows "\<lparr>whole = w @ ws @ CHR '':'' # v, group1 = dropWhile isSpace v\<rparr>
     \<in> set (rx_match_all fontFamilyRegex (a @ g @ w @ ws @ CHR '':'' # v @ b))"
proof -
  let ?m = "\<lparr>whole = w @ ws @ CHR '':'' # v, group1 = dropWhile isSpace v\<rparr>"
  let ?D = "w @ ws @ CHR '':'' # v @ b"
  have ne: "?D \<noteq> []" by simp
  have here: "?m \<in> set (rx_scan fontFamilyRegex 0 p ?D)" for p
    using fontFamily_match_at [OF w ws v after, of p] ne by (rule rx_scan_here)
  have skip: "rx_scan fontFamilyRegex 0 p (g @ ?D) = rx_scan fontFamilyRegex 0 (consumed g p) ?D" for p
  proof (rule rx_scan_pass)
    from w(1) have "length ''font-family'' \<le> length w" by simp
    from absent_no_match [OF fontFamilyRegex_key this between, of "ws @ CHR '':'' # v @ b"]
    show "\<forall>a1 a2 q. g = a1 @ a2 \<and> a2 \<noteq> [] \<longrightarrow> rx_match_at fontFamilyRegex (q, a2 @ ?D) = None"
      by simp
  qed
  show ?thesis
  proof (cases "a = []")
    case True
    with here [of "consumed g None"] skip [of None] show ?thesis
      by (simp add: rx_match_all_def)
  next
    case False
    with before have t: "last a \<in> set '';{}''" by simp
    from False have a: "a = butlast a @ [last a]" by simp
    have "rx_scan fontFamilyRegex 0 None (butlast a @ last a # g @ ?D)
        = rx_scan fontFamilyRegex 0 None (butlast a)
          @ rx_scan fontFamilyRegex 0 (Some (last a)) (g @ ?D)"
      by (rule rx_scan_avoid [OF fontFamilyRegex_avoids [OF t] fontFamilyRegex_needs_char]) simp
    with here [of "consumed g (Some (last a))"] skip [of "Some (last a)"]
    have mem: "?m \<in> set (rx_scan fontFamilyRegex 0 None (butlast a @ last a # g @ ?D))"
      by simp
    have eq: "a @ g @ ?D = butlast a @ last a # g @ ?D"
      using a by (metis append.assoc append_Cons append_Nil)
    from mem show ?thesis
      unfolding rx_match_all_def eq .
  qed
qed

section \<open>The @font-face blocks\<close>

text \<open>The scan of a text does not depend on what follows the text, when no match
  within the text does.\<close>

lemma rx_scan_local:
  assumes "rx_needs_char R"
  shows "(\<forall>q a1 a2. a = a1 @ a2 \<and> a2 \<noteq> [] \<longrightarrow> rx_match_at R (q, a2 @ w) = rx_match_at R (q, a2))
    \<Longrightarrow> k \<le> length a
    \<Longrightarrow> rx_scan R k p (a @ w) = rx_scan R k p a @ rx_scan R 0 (consumed a p) w"
proof (induction a arbitrary: k p)
  case Nil
  with assms show ?case by (simp add: rx_needs_char_def consumed_def)
next
  case (Cons x xs)
  have tl: "\<forall>q a1 a2. xs = a1 @ a2 \<and> a2 \<noteq> [] \<longrightarrow> rx_match_at R (q, a2 @ w) = rx_match_at R (q, a2)"
    using Cons.prems(1) by (metis append_Cons)
  have same: "rx_match_at R (p, (x # xs) @ w) = rx_match_at R (p, x # xs)"
    using Cons.prems(1) by (metis append_Nil list.distinct(1))
  show ?case
  proof (cases k)
    case (Suc j)
    with Cons.prems(2) Cons.IH [OF tl, of j "Some x"] show ?thesis
      by (simp add: consumed_Cons)
  next
    case 0
    show ?thesis
    proof (cases "rx_match_at R (p, x # xs)")
      case None
      with same 0 Cons.IH [OF tl, of 0 "Some x"] show ?thesis
        by (simp add: consumed_Cons)
    next
      case (Some m)
      from rx_match_at_length [OF Some] have "length (whole m) - 1 \<le> length xs"
        by simp
      from Cons.IH [OF tl this, of "Some x"] same Some 0 show ?thesis
        by (simp add: consumed_Cons)
    qed
  qed
qed

lemma fontFaceRegex_sel:
  "icase fontFaceRegex = True"
  "pre fontFaceRegex = Seq (lit ''@font-face'') (Seq (Star (Cls isSpace)) (Chr CHR ''{''))"
  "grp fontFaceRegex = Plus (Cls (noneOf ''}''))" "post fontFaceRegex = Chr CHR ''}''"
  by (simp_all add: fontFaceRegex_def)

lemma noneOf_brace: "noneOf ''}'' c = (c \<noteq> CHR ''}'')"
  by (simp add: noneOf_def)

lemma upper_brace: "upperChar CHR ''{'' = CHR ''{''" "upperChar CHR ''}'' = CHR ''}''"
  "upperChar CHR ''@'' = CHR ''@''"
  by (simp_all add: upperChar_def)

lemma chr_ic_step:
  "c \<in> set ''{}@=:;-'' \<Longrightarrow> rx_run True (Chr c) (q, c # s) = [(Some c, s)]"
  by simp

lemma chr_ic_fail:
  "c \<in> set ''{}@=:;-'' \<Longrightarrow> x \<noteq> c \<Longrightarrow> rx_run True (Chr c) (q, x # s) = []"
  using upper_eq_punct [of c x] by auto

text \<open>A \<^verbatim>\<open>@font-face\<close> block: the name in any case, white space, and the body between
  the braces, which is not empty and has no \<^verbatim>\<open>}\<close> in it.\<close>

lemma fontFace_match_at:
  assumes w: "length w = 10" "map upperChar w = ''@FONT-FACE''"
    and ws: "\<forall>c \<in> set ws. isSpace c"
    and body: "body \<noteq> []" "\<forall>c \<in> set body. noneOf ''}'' c"
  shows "rx_match_at fontFaceRegex (p, w @ ws @ CHR ''{'' # body @ CHR ''}'' # rest)
     = Some \<lparr>whole = w @ ws @ CHR ''{'' # body @ ''}'', group1 = body\<rparr>"
proof -
  let ?s = "w @ ws @ CHR ''{'' # body @ CHR ''}'' # rest"
  have ci: "ci_eq True w ''@font-face''"
    using w by (simp add: ci_eq_def upperChar_def)
  have 1: "rx_run True (lit ''@font-face'') (p, ?s) = [(consumed w p, ws @ CHR ''{'' # body @ CHR ''}'' # rest)]"
    using w by (intro lit_run_prefix ci) simp
  have "\<not> isSpace CHR ''{''" by (simp add: isSpace_def)
  with ws have tw: "takeWhile isSpace (ws @ CHR ''{'' # body @ CHR ''}'' # rest) = ws"
    "dropWhile isSpace (ws @ CHR ''{'' # body @ CHR ''}'' # rest) = CHR ''{'' # body @ CHR ''}'' # rest"
    by (simp_all add: takeWhile_run)
  from star_cls_head [of True isSpace "consumed w p" "ws @ CHR ''{'' # body @ CHR ''}'' # rest"] tw
  obtain ys where 2: "rx_run True (Star (Cls isSpace)) (consumed w p, ws @ CHR ''{'' # body @ CHR ''}'' # rest)
      = (consumed ws (consumed w p), CHR ''{'' # body @ CHR ''}'' # rest) # ys"
    by auto
  have 3: "rx_run True (Chr CHR ''{'') (consumed ws (consumed w p), CHR ''{'' # body @ CHR ''}'' # rest)
      = (Some CHR ''{'', body @ CHR ''}'' # rest) # []"
    by (rule chr_ic_step) simp
  from seq_head [OF 2 3] obtain zs where 4:
    "rx_run True (Seq (Star (Cls isSpace)) (Chr CHR ''{'')) (consumed w p, ws @ CHR ''{'' # body @ CHR ''}'' # rest)
      = (Some CHR ''{'', body @ CHR ''}'' # rest) # zs"
    by blast
  from seq_head [OF 1 4] obtain us where pre:
    "rx_run True (Seq (lit ''@font-face'') (Seq (Star (Cls isSpace)) (Chr CHR ''{''))) (p, ?s)
      = (Some CHR ''{'', body @ CHR ''}'' # rest) # us"
    by blast
  have "\<not> noneOf ''}'' (hd (CHR ''}'' # rest))" by (simp add: noneOf_def)
  with body(2) have tb: "takeWhile (noneOf ''}'') (body @ CHR ''}'' # rest) = body"
    "dropWhile (noneOf ''}'') (body @ CHR ''}'' # rest) = CHR ''}'' # rest"
    by (simp_all add: takeWhile_run)
  from plus_cls_head [of "noneOf ''}''" "body @ CHR ''}'' # rest" True "Some CHR ''{''"] tb body(1)
  obtain vs where grp: "rx_run True (Plus (Cls (noneOf ''}''))) (Some CHR ''{'', body @ CHR ''}'' # rest)
      = (Some (last body), CHR ''}'' # rest) # vs"
    by auto
  have post: "rx_run True (Chr CHR ''}'') (Some (last body), CHR ''}'' # rest) = (Some CHR ''}'', rest) # []"
    by (rule chr_ic_step) simp
  have "rx_match_at fontFaceRegex (p, ?s) =
     Some \<lparr>whole = take (length (snd (p, ?s)) - length (snd (Some CHR ''}'', rest))) (snd (p, ?s)),
           group1 = take (length (snd (Some CHR ''{'', body @ CHR ''}'' # rest))
                      - length (snd (Some (last body), CHR ''}'' # rest)))
                     (snd (Some CHR ''{'', body @ CHR ''}'' # rest))\<rparr>"
    by (rule rx_match_at_head [where xs = us and ys = vs and zs = "[]"])
       (simp_all only: fontFaceRegex_sel pre grp post)
  then show ?thesis by simp
qed

lemma rx_run_set:
  "st' \<in> set (rx_run ic r st) \<Longrightarrow> set (snd st') \<subseteq> set (snd st)"
  by (auto dest!: rx_run_suffix)

lemma post_brace:
  "CHR ''}'' \<notin> set r \<Longrightarrow>
   rx_run True (Chr CHR ''}'') (c, r @ CHR ''}'' # X) = (if r = [] then [(Some CHR ''}'', X)] else [])"
proof (cases r)
  case Nil
  then show ?thesis by (simp add: upper_brace)
next
  case (Cons x xs)
  assume "CHR ''}'' \<notin> set r"
  with Cons have "x \<noteq> CHR ''}''" by auto
  from chr_ic_fail [OF _ this, of c "xs @ CHR ''}'' # X"] Cons show ?thesis
    by simp
qed

lemma concat_map_cong:
  "(\<And>x. x \<in> set xs \<Longrightarrow> f x = g x) \<Longrightarrow> concat (map f xs) = concat (map g xs)"
  by (induction xs) simp_all

lemma fontFaceRegex_avoids_brace:
  "rx_avoids True (CHR ''}'') (pre fontFaceRegex)" "rx_avoids True (CHR ''}'') (grp fontFaceRegex)"
  "\<not> isWordChar (CHR ''}'')"
  by (simp_all add: fontFaceRegex_def upperChar_def isSpace_def noneOf_def isWordChar_def Plus_def)

lemma fontFace_paths:
  assumes "CHR ''}'' \<notin> set u"
  shows "rx_paths fontFaceRegex (q, u @ CHR ''}'' # X) =
     map (\<lambda>(s1, s2). (extend (CHR ''}'' # X) s1, extend (CHR ''}'' # X) s2, (Some CHR ''}'', X)))
       (faceWays (q, u))"
proof -
  let ?E = "extend (CHR ''}'' # X)"
  have e: "(q, u @ CHR ''}'' # X) = ?E (q, u)"
    by (simp add: extend_def)
  have pre: "rx_run True (pre fontFaceRegex) (?E (q, u)) = map ?E (rx_run True (pre fontFaceRegex) (q, u))"
    by (rule rx_run_avoid [OF fontFaceRegex_avoids_brace(1,3)])
  have grp: "rx_run True (grp fontFaceRegex) (?E s1) = map ?E (rx_run True (grp fontFaceRegex) s1)" for s1
    by (rule rx_run_avoid [OF fontFaceRegex_avoids_brace(2,3)])
  have post: "rx_run True (post fontFaceRegex) (?E s2)
      = (if snd s2 = [] then [(Some CHR ''}'', X)] else [])"
    if "s1 \<in> set (rx_run True (pre fontFaceRegex) (q, u))"
      "s2 \<in> set (rx_run True (grp fontFaceRegex) s1)" for s1 s2
  proof -
    from that have "set (snd s2) \<subseteq> set u"
      by (auto dest!: rx_run_set)
    with assms have "CHR ''}'' \<notin> set (snd s2)" by blast
    from post_brace [OF this, of "fst s2" X] show ?thesis
      by (simp add: fontFaceRegex_sel extend_def)
  qed
  have inner: "concat (map (\<lambda>s2'. map (\<lambda>s3. (?E s1, s2', s3)) (rx_run True (post fontFaceRegex) s2'))
          (map ?E (rx_run True (grp fontFaceRegex) s1)))
      = map (\<lambda>(s1, s2). (?E s1, ?E s2, (Some CHR ''}'', X)))
          (concat (map (\<lambda>s2. if snd s2 = [] then [(s1, s2)] else [])
             (rx_run True (grp fontFaceRegex) s1)))"
    if s1: "s1 \<in> set (rx_run True (pre fontFaceRegex) (q, u))" for s1
  proof -
    have "concat (map (\<lambda>s2'. map (\<lambda>s3. (?E s1, s2', s3)) (rx_run True (post fontFaceRegex) s2'))
          (map ?E (rx_run True (grp fontFaceRegex) s1)))
        = concat (map (\<lambda>s2. map (\<lambda>s3. (?E s1, ?E s2, s3)) (rx_run True (post fontFaceRegex) (?E s2)))
          (rx_run True (grp fontFaceRegex) s1))"
      by (simp add: comp_def)
    also have "\<dots> = concat (map (\<lambda>s2. if snd s2 = [] then [(?E s1, ?E s2, (Some CHR ''}'', X))] else [])
          (rx_run True (grp fontFaceRegex) s1))"
      by (rule concat_map_cong) (simp add: post [OF s1])
    also have "\<dots> = map (\<lambda>(s1, s2). (?E s1, ?E s2, (Some CHR ''}'', X)))
          (concat (map (\<lambda>s2. if snd s2 = [] then [(s1, s2)] else [])
             (rx_run True (grp fontFaceRegex) s1)))"
      by (simp add: map_concat comp_def if_distrib [of "map _"] cong: if_cong)
    finally show ?thesis .
  qed
  have "rx_paths fontFaceRegex (?E (q, u)) =
      concat (map (\<lambda>s1. concat (map (\<lambda>s2'. map (\<lambda>s3. (?E s1, s2', s3)) (rx_run True (post fontFaceRegex) s2'))
          (map ?E (rx_run True (grp fontFaceRegex) s1))))
        (rx_run True (pre fontFaceRegex) (q, u)))"
    unfolding rx_paths_def by (simp add: fontFaceRegex_sel(1) pre grp comp_def)
  also have "\<dots> = concat (map (\<lambda>s1. map (\<lambda>(s1, s2). (?E s1, ?E s2, (Some CHR ''}'', X)))
          (concat (map (\<lambda>s2. if snd s2 = [] then [(s1, s2)] else [])
             (rx_run True (grp fontFaceRegex) s1))))
        (rx_run True (pre fontFaceRegex) (q, u)))"
    by (rule concat_map_cong) (rule inner)
  also have "\<dots> = map (\<lambda>(s1, s2). (?E s1, ?E s2, (Some CHR ''}'', X))) (faceWays (q, u))"
    unfolding faceWays_def by (simp add: map_concat comp_def)
  finally show ?thesis unfolding e .
qed

lemma fontFace_local_first:
  assumes "CHR ''}'' \<notin> set u"
  shows "rx_match_at fontFaceRegex (q, u @ CHR ''}'' # X) =
     (case faceWays (q, u) of
        [] \<Rightarrow> None
      | (s1, s2) # _ \<Rightarrow> Some \<lparr>whole = u @ ''}'', group1 = snd s1\<rparr>)"
proof (cases "faceWays (q, u)")
  case Nil
  then show ?thesis
    by (simp add: rx_match_at_def fontFace_paths [OF assms])
next
  case (Cons pr prs)
  obtain s1 s2 where pr: "pr = (s1, s2)" by (cases pr)
  with Cons have "(s1, s2) \<in> set (faceWays (q, u))" by simp
  then have "snd s2 = []"
    unfolding faceWays_def by (auto split: if_splits)
  with Cons pr show ?thesis
    by (simp add: rx_match_at_def fontFace_paths [OF assms] extend_def)
qed

lemma fontFace_local:
  assumes "a2 \<noteq> []" "last a2 = CHR ''}''"
  shows "rx_match_at fontFaceRegex (q, a2 @ w) = rx_match_at fontFaceRegex (q, a2)"
proof -
  from assms have "CHR ''}'' \<in> set a2"
    by (metis last_in_set)
  from split_list_first [OF this] obtain u r where a2: "a2 = u @ CHR ''}'' # r" "CHR ''}'' \<notin> set u"
    by blast
  from fontFace_local_first [OF a2(2), of q "r @ w"] fontFace_local_first [OF a2(2), of q r]
  show ?thesis
    by (simp add: a2(1))
qed

lemma fontFaceRegex_needs_char: "rx_needs_char fontFaceRegex"
  by (simp add: rx_needs_char_def rx_match_at_def rx_paths_def fontFaceRegex_def)

lemma fontFace_scan_closed:
  assumes "a \<noteq> []" "last a = CHR ''}''"
  shows "rx_scan fontFaceRegex 0 p (a @ w)
     = rx_scan fontFaceRegex 0 p a @ rx_scan fontFaceRegex 0 (Some CHR ''}'') w"
proof -
  have "\<forall>q a1 a2. a = a1 @ a2 \<and> a2 \<noteq> [] \<longrightarrow>
      rx_match_at fontFaceRegex (q, a2 @ w) = rx_match_at fontFaceRegex (q, a2)"
    using assms by (auto intro!: fontFace_local)
  from rx_scan_local [OF fontFaceRegex_needs_char this, of 0 p] assms
  show ?thesis by (simp add: consumed_def)
qed

lemma faceFamilyRegex_sel:
  "icase faceFamilyRegex = True"
  "pre faceFamilyRegex = Seq (lit ''font-family'')
      (Seq (Star (Cls isSpace))
        (Seq (Chr CHR '':'') (Seq (Star (Cls isSpace)) (Opt (Cls (oneOf quotes))))))"
  "grp faceFamilyRegex = Plus (Cls (noneOf (quotes @ '';'')))"
  "post faceFamilyRegex = Opt (Cls (oneOf quotes))"
  by (simp_all add: faceFamilyRegex_def)

lemma opt_cls_head:
  "\<exists>q' ys. rx_run ic (Opt (Cls C)) (q, s)
     = (q', case s of [] \<Rightarrow> [] | c # cs \<Rightarrow> if C c then cs else c # cs) # ys"
  by (cases s) simp_all

lemma faceFamily_match_at:
  assumes w: "length w = 11" "map upperChar w = ''FONT-FAMILY''"
    and ws: "\<forall>c \<in> set ws. isSpace c"
    and name: "faceFamilyValue v \<noteq> []"
  shows "\<exists>wh. rx_match_at faceFamilyRegex (p, w @ ws @ CHR '':'' # v)
     = Some \<lparr>whole = wh, group1 = faceFamilyValue v\<rparr>"
proof -
  let ?v2 = "case dropWhile isSpace v of [] \<Rightarrow> [] | c # cs \<Rightarrow> if oneOf quotes c then cs else c # cs"
  let ?C = "noneOf (quotes @ '';'')"
  have ci: "ci_eq True w ''font-family''"
    using w by (simp add: ci_eq_def upperChar_def)
  have 1: "rx_run True (lit ''font-family'') (p, w @ ws @ CHR '':'' # v)
      = [(consumed w p, ws @ CHR '':'' # v)]"
    using w by (intro lit_run_prefix ci) simp
  have tw: "takeWhile isSpace (ws @ CHR '':'' # v) = ws" "dropWhile isSpace (ws @ CHR '':'' # v) = CHR '':'' # v"
    using ws by (simp_all add: takeWhile_run isSpace_def)
  from star_cls_head [of True isSpace "consumed w p" "ws @ CHR '':'' # v"] tw
  obtain ys where 2: "rx_run True (Star (Cls isSpace)) (consumed w p, ws @ CHR '':'' # v)
      = (consumed ws (consumed w p), CHR '':'' # v) # ys"
    by auto
  have 3: "rx_run True (Chr CHR '':'') (consumed ws (consumed w p), CHR '':'' # v) = (Some CHR '':'', v) # []"
    by (rule chr_ic_step) simp
  from star_cls_head [of True isSpace "Some CHR '':''" v]
  obtain q4 zs where 4: "rx_run True (Star (Cls isSpace)) (Some CHR '':'', v) = (q4, dropWhile isSpace v) # zs"
    by auto
  from opt_cls_head [of True "oneOf quotes" q4 "dropWhile isSpace v"]
  obtain q5 us where 5: "rx_run True (Opt (Cls (oneOf quotes))) (q4, dropWhile isSpace v) = (q5, ?v2) # us"
    by auto
  from seq_head [OF 4 5] obtain l45 where
    45: "rx_run True (Seq (Star (Cls isSpace)) (Opt (Cls (oneOf quotes)))) (Some CHR '':'', v) = (q5, ?v2) # l45"
    by blast
  from seq_head [OF 3 45] obtain l35 where
    35: "rx_run True (Seq (Chr CHR '':'') (Seq (Star (Cls isSpace)) (Opt (Cls (oneOf quotes)))))
          (consumed ws (consumed w p), CHR '':'' # v) = (q5, ?v2) # l35"
    by blast
  from seq_head [OF 2 35] obtain l25 where
    25: "rx_run True (Seq (Star (Cls isSpace))
            (Seq (Chr CHR '':'') (Seq (Star (Cls isSpace)) (Opt (Cls (oneOf quotes))))))
          (consumed w p, ws @ CHR '':'' # v) = (q5, ?v2) # l25"
    by blast
  from seq_head [OF 1 25] obtain l15 where
    pre: "rx_run True (Seq (lit ''font-family'') (Seq (Star (Cls isSpace))
            (Seq (Chr CHR '':'') (Seq (Star (Cls isSpace)) (Opt (Cls (oneOf quotes)))))))
          (p, w @ ws @ CHR '':'' # v) = (q5, ?v2) # l15"
    by blast
  from name have ne: "takeWhile ?C ?v2 \<noteq> []"
    by (simp add: faceFamilyValue_def)
  from plus_cls_head [OF ne, of True q5] obtain vs where
    grp: "rx_run True (Plus (Cls ?C)) (q5, ?v2) = (Some (last (takeWhile ?C ?v2)), dropWhile ?C ?v2) # vs"
    by blast
  from opt_cls_head [of True "oneOf quotes" "Some (last (takeWhile ?C ?v2))" "dropWhile ?C ?v2"]
  obtain q7 r7 l7 where
    post: "rx_run True (Opt (Cls (oneOf quotes))) (Some (last (takeWhile ?C ?v2)), dropWhile ?C ?v2)
      = (q7, r7) # l7"
    by blast
  have "rx_match_at faceFamilyRegex (p, w @ ws @ CHR '':'' # v) =
     Some \<lparr>whole = take (length (snd (p, w @ ws @ CHR '':'' # v)) - length (snd (q7, r7)))
                     (snd (p, w @ ws @ CHR '':'' # v)),
           group1 = take (length (snd (q5, ?v2))
                      - length (snd (Some (last (takeWhile ?C ?v2)), dropWhile ?C ?v2)))
                     (snd (q5, ?v2))\<rparr>"
    by (rule rx_match_at_head [where xs = l15 and ys = vs and zs = l7])
       (simp_all only: faceFamilyRegex_sel pre grp post)
  then show ?thesis
    by (simp add: take_length_dropWhile faceFamilyValue_def)
qed

lemma faceFamilyRegex_key:
  "pre faceFamilyRegex = Seq (lit ''font-family'')
             (Seq (Star (Cls isSpace))
               (Seq (Chr CHR '':'') (Seq (Star (Cls isSpace)) (Opt (Cls (oneOf quotes))))))"
  "icase faceFamilyRegex"
  by (simp_all add: faceFamilyRegex_def del: lit.simps)

text \<open>The declaration that the search in the body of a block finds first.\<close>

lemma faceFamily_exec:
  assumes w: "length w = 11" "map upperChar w = ''FONT-FAMILY''"
    and ws: "\<forall>c \<in> set ws. isSpace c"
    and name: "faceFamilyValue v \<noteq> []"
    and before: "absent ''font-family'' g w"
  shows "\<exists>wh. rx_exec faceFamilyRegex None (g @ w @ ws @ CHR '':'' # v)
     = Some \<lparr>whole = wh, group1 = faceFamilyValue v\<rparr>"
proof -
  from w(1) have "length ''font-family'' \<le> length w" by simp
  from absent_no_match [OF faceFamilyRegex_key this before, of "ws @ CHR '':'' # v"]
  have "\<forall>a1 a2 q. g = a1 @ a2 \<and> a2 \<noteq> [] \<longrightarrow>
      rx_match_at faceFamilyRegex (q, a2 @ w @ ws @ CHR '':'' # v) = None" .
  then have "rx_exec faceFamilyRegex None (g @ w @ ws @ CHR '':'' # v)
      = rx_exec faceFamilyRegex (consumed g None) (w @ ws @ CHR '':'' # v)"
    by (rule rx_exec_skip)
  moreover from faceFamily_match_at [OF w ws name, of "consumed g None"] obtain wh where
    "rx_match_at faceFamilyRegex (consumed g None, w @ ws @ CHR '':'' # v)
       = Some \<lparr>whole = wh, group1 = faceFamilyValue v\<rparr>"
    by blast
  ultimately show ?thesis
    by (auto dest: rx_exec_here)
qed

lemma set_second_loop:
  "set (foldl (\<lambda>fs m. addFontFace fs (group1 m)) acc ms)
     = set acc \<union> {trim (group1 fm) | m fm. m \<in> set ms
                    \<and> rx_exec faceFamilyRegex None (group1 m) = Some fm}"
  by (induction ms arbitrary: acc)
     (auto simp: addFontFace_def set_set_add split: option.splits)

lemma extractFonts_face:
  "m \<in> set (rx_match_all fontFaceRegex css) \<Longrightarrow>
   rx_exec faceFamilyRegex None (group1 m) = Some fm \<Longrightarrow>
   trim (group1 fm) \<in> set (extractFonts css)"
  unfolding extractFonts_def Let_def set_second_loop by blast

lemma fontFaceRegex_key:
  "pre fontFaceRegex = Seq (lit ''@font-face'') (Seq (Star (Cls isSpace)) (Chr CHR ''{''))"
  "icase fontFaceRegex"
  by (simp_all add: fontFaceRegex_def del: lit.simps)

lemma fontFace_scan_mem:
  assumes w: "length w = 10" "map upperChar w = ''@FONT-FACE''"
    and ws: "\<forall>c \<in> set ws. isSpace c"
    and body: "body \<noteq> []" "\<forall>c \<in> set body. noneOf ''}'' c"
    and before: "a = [] \<or> last a = CHR ''}''"
    and between: "absent ''@font-face'' g w"
  shows "\<lparr>whole = w @ ws @ CHR ''{'' # body @ ''}'', group1 = body\<rparr>
     \<in> set (rx_match_all fontFaceRegex (a @ g @ w @ ws @ CHR ''{'' # body @ CHR ''}'' # b))"
proof -
  let ?m = "\<lparr>whole = w @ ws @ CHR ''{'' # body @ ''}'', group1 = body\<rparr>"
  let ?D = "w @ ws @ CHR ''{'' # body @ CHR ''}'' # b"
  have ne: "?D \<noteq> []" by simp
  have here: "?m \<in> set (rx_scan fontFaceRegex 0 p ?D)" for p
    using fontFace_match_at [OF w ws body, of p b] ne by (rule rx_scan_here)
  have skip: "rx_scan fontFaceRegex 0 p (g @ ?D) = rx_scan fontFaceRegex 0 (consumed g p) ?D" for p
  proof (rule rx_scan_pass)
    from w(1) have "length ''@font-face'' \<le> length w" by simp
    from absent_no_match [OF fontFaceRegex_key this between, of "ws @ CHR ''{'' # body @ CHR ''}'' # b"]
    show "\<forall>a1 a2 q. g = a1 @ a2 \<and> a2 \<noteq> [] \<longrightarrow> rx_match_at fontFaceRegex (q, a2 @ ?D) = None"
      by simp
  qed
  show ?thesis
  proof (cases "a = []")
    case True
    with here [of "consumed g None"] skip [of None] show ?thesis
      by (simp add: rx_match_all_def)
  next
    case False
    with before have "last a = CHR ''}''" by simp
    from fontFace_scan_closed [OF False this, of None "g @ ?D"]
      here [of "consumed g (Some CHR ''}'')"] skip [of "Some CHR ''}''"]
    show ?thesis
      by (simp add: rx_match_all_def)
  qed
qed

lemma quote_not_space: "isQuote c \<Longrightarrow> \<not> isSpace c"
  by (auto simp: isQuote_def quotes_def isSpace_def)

lemma noneOf_quotes_semi: "noneOf (quotes @ '';'') c = (\<not> isQuote c \<and> c \<noteq> CHR '';'')"
  by (auto simp: noneOf_def isQuote_def)

lemma oneOf_quotes: "oneOf quotes c = isQuote c"
  by (simp add: oneOf_def isQuote_def)

lemma faceFamilyValue_quoted:
  assumes "\<forall>c \<in> set sp. isSpace c" "isQuote q" "name \<noteq> []"
    "\<forall>c \<in> set name. \<not> isQuote c \<and> c \<noteq> CHR '';''" "r = [] \<or> isQuote (hd r) \<or> hd r = CHR '';''"
  shows "faceFamilyValue (sp @ q # name @ r) = name"
proof -
  from assms(1,2) have "dropWhile isSpace (sp @ q # name @ r) = q # name @ r"
    by (simp add: takeWhile_run quote_not_space)
  moreover from assms(4,5) have "takeWhile (noneOf (quotes @ '';'')) (name @ r) = name"
    by (intro takeWhile_run(1)) (auto simp: noneOf_quotes_semi)
  ultimately show ?thesis
    using assms(2) by (simp add: faceFamilyValue_def oneOf_quotes)
qed

lemma faceFamilyValue_plain:
  assumes "\<forall>c \<in> set sp. isSpace c" "name \<noteq> []" "\<not> isSpace (hd name)"
    "\<forall>c \<in> set name. \<not> isQuote c \<and> c \<noteq> CHR '';''" "r = [] \<or> isQuote (hd r) \<or> hd r = CHR '';''"
  shows "faceFamilyValue (sp @ name @ r) = name"
proof -
  from assms(2) obtain x xs where name: "name = x # xs" by (cases name) auto
  with assms(3,4) have x: "\<not> isSpace x" "\<not> isQuote x" by auto
  with assms(1) have "dropWhile isSpace (sp @ name @ r) = x # xs @ r"
    using takeWhile_run(2) [of sp isSpace "name @ r"] by (simp add: name)
  moreover from assms(4,5) have "takeWhile (noneOf (quotes @ '';'')) (name @ r) = name"
    by (intro takeWhile_run(1)) (auto simp: noneOf_quotes_semi)
  ultimately show ?thesis
    using x(2) by (simp add: faceFamilyValue_def oneOf_quotes name)
qed

lemma extractFonts_block:
  assumes w: "length w = 10" "map upperChar w = ''@FONT-FACE''"
    and ws: "\<forall>c \<in> set ws. isSpace c"
    and before: "a = [] \<or> last a = CHR ''}''"
    and between: "absent ''@font-face'' g w"
    and body: "body = g' @ w' @ ws' @ CHR '':'' # v" "CHR ''}'' \<notin> set body"
    and g': "absent ''font-family'' g' w'"
    and w': "length w' = 11" "map upperChar w' = ''FONT-FAMILY''"
    and ws': "\<forall>c \<in> set ws'. isSpace c"
    and name: "faceFamilyValue v \<noteq> []"
  shows "trim (faceFamilyValue v) \<in> set (extractFonts (a @ g @ w @ ws @ CHR ''{'' # body @ CHR ''}'' # b))"
proof -
  from body(1) have ne: "body \<noteq> []" by simp
  from body(2) have cls: "\<forall>c \<in> set body. noneOf ''}'' c"
    by (auto simp: noneOf_brace)
  from faceFamily_exec [OF w' ws' name g'] obtain wh where
    "rx_exec faceFamilyRegex None body = Some \<lparr>whole = wh, group1 = faceFamilyValue v\<rparr>"
    unfolding body(1) by blast
  from extractFonts_face [OF fontFace_scan_mem [OF w ws ne cls before between, of b]] this
  show ?thesis by simp
qed

text \<open>
  Claim C7, as stated, fails.  The family of a block is taken up to the next quote
  character or semicolon only, also when that stands inside the quoted name: of the
  family \<^verbatim>\<open>"Bob's Font"\<close> the block adds \<^verbatim>\<open>Bob\<close>.  (The entry \<^verbatim>\<open>Bobs Font\<close> comes from the first
  loop, which sees the same declaration.)
\<close>

theorem extractFonts_truncates_face_family:
  \<open>addFontFace [] ''font-family:"Bob's Font"'' = [''Bob'']
   \<and> extractFonts ''@font-face{font-family:"Bob's Font"}'' = [''Bobs Font'', ''Bob'']
   \<and> ''Bob's Font'' \<notin> set (extractFonts ''@font-face{font-family:"Bob's Font"}'')\<close>
  by code_simp

text \<open>
  Claim C7, amended.  For every \<^verbatim>\<open>@font-face { ... }\<close> block of the CSS text (the first
  \<^verbatim>\<open>@font-face\<close> behind the start of the text or behind a \<^verbatim>\<open>}\<close>, in any case, white
  space allowed before the brace, the body not empty and up to the next \<^verbatim>\<open>}\<close>),
  \<open>extractFonts\<close> finds the first \<^verbatim>\<open>font-family\<close> declaration of the body and adds the
  family that it declares, trimmed, when that is not empty: the text behind the colon,
  the white space and one opening quote, up to the next quote or semicolon.  For a
  name without a quote and without a semicolon in it, that is the name between the
  quotes, or the value up to the semicolon when there are no quotes; it is not split
  at commas.  A block adds one entry at most.
\<close>

theorem extractFonts_font_face:
  "(length w = 10 \<and> map upperChar w = ''@FONT-FACE'' \<and> (\<forall>c \<in> set ws. isSpace c)
      \<and> (a = [] \<or> last a = CHR ''}'') \<and> absent ''@font-face'' g w
      \<and> body = g' @ w' @ ws' @ CHR '':'' # v \<and> CHR ''}'' \<notin> set body
      \<and> absent ''font-family'' g' w'
      \<and> length w' = 11 \<and> map upperChar w' = ''FONT-FAMILY'' \<and> (\<forall>c \<in> set ws'. isSpace c)
      \<and> faceFamilyValue v \<noteq> []
     \<longrightarrow> trim (faceFamilyValue v)
           \<in> set (extractFonts (a @ g @ w @ ws @ CHR ''{'' # body @ CHR ''}'' # b)))
   \<and> ((\<forall>c \<in> set sp. isSpace c) \<and> isQuote q \<and> name \<noteq> []
        \<and> (\<forall>c \<in> set name. \<not> isQuote c \<and> c \<noteq> CHR '';'')
        \<and> (r = [] \<or> isQuote (hd r) \<or> hd r = CHR '';'')
       \<longrightarrow> faceFamilyValue (sp @ q # name @ r) = name)
   \<and> ((\<forall>c \<in> set sp. isSpace c) \<and> name \<noteq> [] \<and> \<not> isSpace (hd name)
        \<and> (\<forall>c \<in> set name. \<not> isQuote c \<and> c \<noteq> CHR '';'')
        \<and> (r = [] \<or> isQuote (hd r) \<or> hd r = CHR '';'')
       \<longrightarrow> faceFamilyValue (sp @ name @ r) = name)
   \<and> (addFontFace fs blk = fs \<or> (\<exists>f. addFontFace fs blk = fs @ [f]))"
proof (intro conjI impI)
  assume "length w = 10 \<and> map upperChar w = ''@FONT-FACE'' \<and> (\<forall>c \<in> set ws. isSpace c)
      \<and> (a = [] \<or> last a = CHR ''}'') \<and> absent ''@font-face'' g w
      \<and> body = g' @ w' @ ws' @ CHR '':'' # v \<and> CHR ''}'' \<notin> set body
      \<and> absent ''font-family'' g' w'
      \<and> length w' = 11 \<and> map upperChar w' = ''FONT-FAMILY'' \<and> (\<forall>c \<in> set ws'. isSpace c)
      \<and> faceFamilyValue v \<noteq> []"
  then show "trim (faceFamilyValue v)
           \<in> set (extractFonts (a @ g @ w @ ws @ CHR ''{'' # body @ CHR ''}'' # b))"
    by (elim conjE) (rule extractFonts_block)
next
  assume "(\<forall>c \<in> set sp. isSpace c) \<and> isQuote q \<and> name \<noteq> []
        \<and> (\<forall>c \<in> set name. \<not> isQuote c \<and> c \<noteq> CHR '';'')
        \<and> (r = [] \<or> isQuote (hd r) \<or> hd r = CHR '';'')"
  then show "faceFamilyValue (sp @ q # name @ r) = name"
    by (elim conjE) (rule faceFamilyValue_quoted)
next
  assume "(\<forall>c \<in> set sp. isSpace c) \<and> name \<noteq> [] \<and> \<not> isSpace (hd name)
        \<and> (\<forall>c \<in> set name. \<not> isQuote c \<and> c \<noteq> CHR '';'')
        \<and> (r = [] \<or> isQuote (hd r) \<or> hd r = CHR '';'')"
  then show "faceFamilyValue (sp @ name @ r) = name"
    by (elim conjE) (rule faceFamilyValue_plain)
next
  show "addFontFace fs blk = fs \<or> (\<exists>f. addFontFace fs blk = fs @ [f])"
    by (simp add: addFontFace_def set_add_def split: option.splits)
qed

theorem extractFonts_font_face_witness:
  \<open>''My Font, Bold''
       \<in> set (extractFonts (''h1{color:red}'' @ '' /* @font */ '' @ ''@Font-Face'' @ '' ''
            @ CHR ''{'' # ('' font-display: swap; '' @ ''font-family'' @ [] @ CHR '':''
                # '' "My Font, Bold"; src: url(a.woff) '') @ CHR ''}'' # '' p{}''))
   \<and> extractFonts ''h1{color:red} /* @font */ @Font-Face { font-display: swap; font-family: "My Font, Bold"; src: url(a.woff) } p{}''
       = [''My Font'', ''Bold'', ''My Font, Bold'']
   \<and> faceFamilyValue ('' '' @ CHR 0x22 # ''My Font, Bold'' @ ''"; src: url(a.woff) '')
       = ''My Font, Bold''
   \<and> faceFamilyValue ('' '' @ ''Arial, serif'' @ ''; src: url(a.woff)'') = ''Arial, serif''\<close>
proof -
  have h: "length ''@Font-Face'' = 10" "map upperChar ''@Font-Face'' = ''@FONT-FACE''"
    "\<forall>c \<in> set '' ''. isSpace c"
    "''h1{color:red}'' = [] \<or> last ''h1{color:red}'' = CHR ''}''"
    "absent ''@font-face'' '' /* @font */ '' ''@Font-Face''"
    by code_simp+
  have hb: \<open>CHR ''}'' \<notin> set ('' font-display: swap; '' @ ''font-family'' @ [] @ CHR '':''
                # '' "My Font, Bold"; src: url(a.woff) '')\<close>
    "absent ''font-family'' '' font-display: swap; '' ''font-family''"
    "length ''font-family'' = 11" "map upperChar ''font-family'' = ''FONT-FAMILY''"
    "\<forall>c \<in> set []. isSpace c"
    by code_simp+
  have v: \<open>faceFamilyValue '' "My Font, Bold"; src: url(a.woff) '' = ''My Font, Bold''\<close>
    \<open>trim ''My Font, Bold'' = ''My Font, Bold''\<close>
    by code_simp+
  then have ne: \<open>faceFamilyValue '' "My Font, Bold"; src: url(a.woff) '' \<noteq> []\<close>
    by simp
  have e: \<open>extractFonts ''h1{color:red} /* @font */ @Font-Face { font-display: swap; font-family: "My Font, Bold"; src: url(a.woff) } p{}''
       = [''My Font'', ''Bold'', ''My Font, Bold'']\<close>
    by code_simp
  have \<open>trim (faceFamilyValue '' "My Font, Bold"; src: url(a.woff) '')
       \<in> set (extractFonts (''h1{color:red}'' @ '' /* @font */ '' @ ''@Font-Face'' @ '' ''
            @ CHR ''{'' # ('' font-display: swap; '' @ ''font-family'' @ [] @ CHR '':''
                # '' "My Font, Bold"; src: url(a.woff) '') @ CHR ''}'' # '' p{}''))\<close>
    by (rule extractFonts_font_face [THEN conjunct1, THEN mp,
        OF conjI [OF h(1) conjI [OF h(2) conjI [OF h(3) conjI [OF h(4) conjI [OF h(5)
          conjI [OF refl conjI [OF hb(1) conjI [OF hb(2) conjI [OF hb(3) conjI [OF hb(4)
            conjI [OF hb(5) ne]]]]]]]]]]]])
  then have m: \<open>''My Font, Bold''
       \<in> set (extractFonts (''h1{color:red}'' @ '' /* @font */ '' @ ''@Font-Face'' @ '' ''
            @ CHR ''{'' # ('' font-display: swap; '' @ ''font-family'' @ [] @ CHR '':''
                # '' "My Font, Bold"; src: url(a.woff) '') @ CHR ''}'' # '' p{}''))\<close>
    by (simp only: v)
  have q: "\<forall>c \<in> set '' ''. isSpace c" "isQuote (CHR 0x22)" "''My Font, Bold'' \<noteq> []"
    "\<forall>c \<in> set ''My Font, Bold''. \<not> isQuote c \<and> c \<noteq> CHR '';''"
    \<open>''"; src: url(a.woff) '' = [] \<or> isQuote (hd ''"; src: url(a.woff) '')
       \<or> hd ''"; src: url(a.woff) '' = CHR '';''\<close>
    by code_simp+
  have quoted: \<open>faceFamilyValue ('' '' @ CHR 0x22 # ''My Font, Bold'' @ ''"; src: url(a.woff) '')
       = ''My Font, Bold''\<close>
    by (rule extractFonts_font_face [THEN conjunct2, THEN conjunct1, THEN mp,
        OF conjI [OF q(1) conjI [OF q(2) conjI [OF q(3) conjI [OF q(4) q(5)]]]]])
  have u: "\<forall>c \<in> set '' ''. isSpace c" "''Arial, serif'' \<noteq> []" "\<not> isSpace (hd ''Arial, serif'')"
    "\<forall>c \<in> set ''Arial, serif''. \<not> isQuote c \<and> c \<noteq> CHR '';''"
    "''; src: url(a.woff)'' = [] \<or> isQuote (hd ''; src: url(a.woff)'')
       \<or> hd ''; src: url(a.woff)'' = CHR '';''"
    by code_simp+
  have plain: "faceFamilyValue ('' '' @ ''Arial, serif'' @ ''; src: url(a.woff)'') = ''Arial, serif''"
    by (rule extractFonts_font_face [THEN conjunct2, THEN conjunct2, THEN conjunct1, THEN mp,
        OF conjI [OF u(1) conjI [OF u(2) conjI [OF u(3) conjI [OF u(4) u(5)]]]]])
  from m e quoted plain show ?thesis by (intro conjI)
qed

section \<open>Closed fragments\<close>

lemma map_concat_related:
  assumes "map k ys = map k xs"
    and "\<And>x y. x \<in> set xs \<Longrightarrow> k y = k x \<Longrightarrow> map h (G y) = map h (F x)"
  shows "map h (concat (map G ys)) = map h (concat (map F xs))"
  using assms
proof (induction xs arbitrary: ys)
  case Nil
  then show ?case by simp
next
  case (Cons x xs)
  from Cons.prems(1) obtain y ys' where ys: "ys = y # ys'" "k y = k x" "map k ys' = map k xs"
    by (cases ys) auto
  from Cons.prems(2) [of x y] ys have "map h (G y) = map h (F x)" by simp
  moreover from Cons.IH [OF ys(3)] Cons.prems(2)
  have "map h (concat (map G ys')) = map h (concat (map F xs))" by simp
  ultimately show ?case by (simp add: ys)
qed

lemma step_prev: "map snd (step P (p', s)) = map snd (step P (p, s))"
  by (cases s) simp_all

lemma filter_shorter_snd:
  "map snd (filter (\<lambda>st'. length (snd st') < n) xs) = filter (\<lambda>s. length s < n) (map snd xs)"
  by (induction xs) simp_all

lemma rx_run_prev:
  "rx_no_boundary r \<Longrightarrow> map snd (rx_run ic r (p', snd st)) = map snd (rx_run ic r st)"
proof (induction ic r st arbitrary: p' rule: rx_run.induct)
  case (1 ic c st)
  then show ?case by (cases st) (simp add: step_prev)
next
  case (2 ic P st)
  then show ?case by (cases st) (simp add: step_prev)
next
  case (3 ic st)
  then show ?case by simp
next
  case (4 ic st)
  then show ?case by simp
next
  case (5 ic r1 r2 st)
  from 5 have IH1: "map snd (rx_run ic r1 (p', snd st)) = map snd (rx_run ic r1 st)"
    by simp
  have IH2: "map snd (rx_run ic r2 y) = map snd (rx_run ic r2 x)"
    if "x \<in> set (rx_run ic r1 st)" "snd y = snd x" for x y
  proof -
    from 5(2) [OF that(1), of "fst y"] 5(3) that(2)
    have "map snd (rx_run ic r2 (fst y, snd y)) = map snd (rx_run ic r2 x)" by simp
    then show ?thesis by simp
  qed
  have "map snd (concat (map (rx_run ic r2) (rx_run ic r1 (p', snd st))))
      = map snd (concat (map (rx_run ic r2) (rx_run ic r1 st)))"
    using IH1 IH2 by (rule map_concat_related)
  then show ?case by (simp only: rx_run.simps(5))
next
  case (6 ic r1 r2 st)
  then show ?case by simp
next
  case (7 ic a st)
  then show ?case
    by (simp add: filter_shorter_snd)
next
  case (8 ic a st)
  let ?short = "\<lambda>st'. length (snd st') < length (snd st)"
  from 8 have IH1: "map snd (rx_run ic a (p', snd st)) = map snd (rx_run ic a st)"
    by simp
  then have F: "map snd (filter ?short (rx_run ic a (p', snd st)))
      = map snd (filter ?short (rx_run ic a st))"
    by (simp only: filter_shorter_snd)
  have IH2: "map snd (rx_run ic (Star a) y) = map snd (rx_run ic (Star a) x)"
    if "x \<in> set (filter ?short (rx_run ic a st))" "snd y = snd x" for x y
  proof -
    from 8(2) [OF that(1), of "fst y"] 8(3) that(2)
    have "map snd (rx_run ic (Star a) (fst y, snd y)) = map snd (rx_run ic (Star a) x)" by simp
    then show ?thesis by simp
  qed
  have "map snd (concat (map (rx_run ic (Star a)) (filter ?short (rx_run ic a (p', snd st)))))
      = map snd (concat (map (rx_run ic (Star a)) (filter ?short (rx_run ic a st))))"
    using F IH2 by (rule map_concat_related)
  then have "map snd (concat (map (rx_run ic (Star a))
          (filter (\<lambda>st'. length (snd st') < length (snd (p', snd st))) (rx_run ic a (p', snd st))))
        @ [(p', snd st)])
      = map snd (concat (map (rx_run ic (Star a)) (filter ?short (rx_run ic a st))) @ [st])"
    by simp
  then show ?case by (simp only: rx_run.simps(8) [symmetric])
qed

lemma rx_run_same_text:
  assumes "rx_no_boundary r" "snd y = snd x"
  shows "map snd (rx_run ic r y) = map snd (rx_run ic r x)"
proof -
  from rx_run_prev [OF assms(1), of ic "fst y" x] assms(2)
  have "map snd (rx_run ic r (fst y, snd y)) = map snd (rx_run ic r x)" by simp
  then show ?thesis by simp
qed

lemma rx_paths_prev:
  assumes "rx_no_boundary_all R" "snd y = snd x"
  shows "map texts (rx_paths R y) = map texts (rx_paths R x)"
proof -
  from assms(1) have nb: "rx_no_boundary (pre R)" "rx_no_boundary (grp R)" "rx_no_boundary (post R)"
    by (simp_all add: rx_no_boundary_all_def)
  have inner: "map texts (map (\<lambda>s3. (y1, y2, s3)) (rx_run (icase R) (post R) y2))
      = map texts (map (\<lambda>s3. (x1, x2, s3)) (rx_run (icase R) (post R) x2))"
    if "snd y1 = snd x1" "snd y2 = snd x2" for x1 x2 y1 y2
  proof -
    have e: "map texts (map (\<lambda>s3. (z1, z2, s3)) zs) = map (\<lambda>t. (snd z1, snd z2, t)) (map snd zs)"
      for z1 z2 :: pos and zs
      by (induction zs) (simp_all add: texts_def)
    from that rx_run_same_text [OF nb(3) that(2), of "icase R"] show ?thesis
      by (simp only: e)
  qed
  have middle: "map texts (concat (map (\<lambda>s2. map (\<lambda>s3. (y1, s2, s3)) (rx_run (icase R) (post R) s2))
          (rx_run (icase R) (grp R) y1)))
      = map texts (concat (map (\<lambda>s2. map (\<lambda>s3. (x1, s2, s3)) (rx_run (icase R) (post R) s2))
          (rx_run (icase R) (grp R) x1)))"
    if "snd y1 = snd x1" for x1 y1
    using rx_run_same_text [OF nb(2) that, of "icase R"] inner [OF that]
    by (rule map_concat_related)
  show ?thesis
    unfolding rx_paths_def
    using rx_run_same_text [OF nb(1) assms(2), of "icase R"] middle
    by (rule map_concat_related)
qed

lemma rx_match_at_texts:
  "rx_match_at R st =
     (case map texts (rx_paths R st) of
        [] \<Rightarrow> None
      | (t1, t2, t3) # _ \<Rightarrow>
          Some \<lparr>whole = take (length (snd st) - length t3) (snd st),
                group1 = take (length t1 - length t2) t1\<rparr>)"
  by (cases "rx_paths R st") (auto simp: rx_match_at_def texts_def)

lemma rx_match_at_prev:
  "rx_no_boundary_all R \<Longrightarrow> rx_match_at R (p', s) = rx_match_at R (p, s)"
proof -
  assume "rx_no_boundary_all R"
  then have "map texts (rx_paths R (p', s)) = map texts (rx_paths R (p, s))"
    by (rule rx_paths_prev) simp
  then show ?thesis
    by (cases "map texts (rx_paths R (p, s))") (simp_all add: rx_match_at_texts)
qed

lemma rx_scan_prev:
  "rx_no_boundary_all R \<Longrightarrow> rx_scan R k p' s = rx_scan R k p s"
proof (induction s arbitrary: k p p')
  case Nil
  then show ?case using rx_match_at_prev [of R p' "[]" p] by simp
next
  case (Cons x xs)
  from Cons.prems have "rx_match_at R (p', x # xs) = rx_match_at R (p, x # xs)"
    by (rule rx_match_at_prev)
  then show ?case
    by (cases k; cases "rx_match_at R (p, x # xs)") simp_all
qed

lemma font_regexes_no_boundary:
  "rx_no_boundary_all fontFamilyRegex" "rx_no_boundary_all fontFaceRegex"
  by (simp_all add: rx_no_boundary_all_def fontFamilyRegex_def fontFaceRegex_def Plus_def)

lemma fragment_cut: "fragmentHead f @ fragmentTail f = f"
  unfolding fragmentHead_def fragmentTail_def rev_append [symmetric] takeWhile_dropWhile_id
  by simp

lemma fragmentHead_last: "fragmentHead f \<noteq> [] \<Longrightarrow> last (fragmentHead f) \<in> set '';{}''"
proof -
  assume "fragmentHead f \<noteq> []"
  then have ne: "dropWhile (noneOf '';{}'') (rev f) \<noteq> []"
    by (simp add: fragmentHead_def)
  then have "\<not> noneOf '';{}'' (hd (dropWhile (noneOf '';{}'') (rev f)))"
    by (rule hd_dropWhile)
  with ne show ?thesis
    by (simp add: fragmentHead_def last_rev noneOf_def)
qed

lemma upper_newline: "upperChar (CHR 0x0A) = CHR 0x0A"
  by (simp add: upperChar_def)

lemma key_before_newline:
  assumes "CHR 0x0A \<notin> set (map upperChar key)"
    and "\<not> ci_eq True (take (length key) (u @ [CHR 0x0A])) key"
  shows "\<not> ci_eq True (take (length key) (u @ CHR 0x0A # rest)) key"
proof (cases "length key \<le> length u + 1")
  case True
  then have "take (length key) ((u @ [CHR 0x0A]) @ rest) = take (length key) (u @ [CHR 0x0A])"
    by (simp only: take_append) simp
  with assms(2) show ?thesis by simp
next
  case False
  then have "take (length key) (u @ CHR 0x0A # rest)
      = u @ CHR 0x0A # take (length key - length u - 1) rest"
    by (simp add: take_Cons')
  then have m: "CHR 0x0A \<in> set (map upperChar (take (length key) (u @ CHR 0x0A # rest)))"
    by (simp add: upper_newline)
  show ?thesis
  proof
    assume "ci_eq True (take (length key) (u @ CHR 0x0A # rest)) key"
    then have "map upperChar (take (length key) (u @ CHR 0x0A # rest)) = map upperChar key"
      by (simp add: ci_eq_def)
    with m assms(1) show False by (simp only:)
  qed
qed

lemma key_at_end:
  assumes "\<not> ci_eq True (take (length key) (u @ [CHR 0x0A])) key"
  shows "\<not> ci_eq True (take (length key) u) key"
proof
  assume a: "ci_eq True (take (length key) u) key"
  then have "length (take (length key) u) = length key"
    by (metis ci_eq_def length_map)
  then have "length key \<le> length u" by simp
  then have "take (length key) (u @ [CHR 0x0A]) = take (length key) u" by simp
  with a assms show False by simp
qed

lemma key_at_newline:
  assumes "CHR 0x0A \<notin> set (map upperChar key)" "key \<noteq> []"
  shows "\<not> ci_eq True (take (length key) (CHR 0x0A # rest)) key"
proof -
  from assms(2) obtain n where "length key = Suc n" by (cases key) auto
  then have m: "CHR 0x0A \<in> set (map upperChar (take (length key) (CHR 0x0A # rest)))"
    by (simp add: upper_newline)
  show ?thesis
  proof
    assume "ci_eq True (take (length key) (CHR 0x0A # rest)) key"
    then have "map upperChar (take (length key) (CHR 0x0A # rest)) = map upperChar key"
      by (simp add: ci_eq_def)
    with m assms(1) show False by (simp only:)
  qed
qed

lemma absent_line:
  assumes "CHR 0x0A \<notin> set (map upperChar key)" "key \<noteq> []"
  shows "absent key g [CHR 0x0A] \<Longrightarrow> absent key (g @ [CHR 0x0A]) rest"
proof (induction g)
  case Nil
  from key_at_newline [OF assms] show ?case by simp
next
  case (Cons x xs)
  from Cons.prems have "\<not> ci_eq True (take (length key) ((x # xs) @ [CHR 0x0A])) key"
    by simp
  from key_before_newline [OF assms(1) this, of rest] Cons show ?case by simp
qed

lemma absent_end: "absent key g [CHR 0x0A] \<Longrightarrow> absent key g []"
proof (induction g)
  case Nil
  then show ?case by simp
next
  case (Cons x xs)
  from Cons.prems have "\<not> ci_eq True (take (length key) ((x # xs) @ [CHR 0x0A])) key"
    by simp
  from key_at_end [OF this] Cons show ?case by simp
qed

lemma absent_pass:
  assumes "pre R = Seq (lit key) r" "icase R" "absent key u rest"
  shows "rx_scan R 0 p (u @ rest) = rx_scan R 0 (consumed u p) rest"
proof (rule rx_scan_pass, intro allI impI)
  fix a1 a2 q assume "u = a1 @ a2 \<and> a2 \<noteq> []"
  with assms(3) have "\<not> ci_eq True (take (length key) (a2 @ rest)) key"
    by (auto dest: absent_suffix)
  with assms(1,2) show "rx_match_at R (q, a2 @ rest) = None"
    by (rule match_needs_key)
qed

text \<open>Behind the tail of a closed fragment the scan starts afresh.\<close>

lemma tail_pass:
  assumes "pre R = Seq (lit key) r" "icase R" "rx_no_boundary_all R" "rx_needs_char R"
    and "CHR 0x0A \<notin> set (map upperChar key)" "key \<noteq> []"
    and "absent key g [CHR 0x0A]"
  shows "rx_scan R 0 p (g @ CHR 0x0A # rest) = rx_scan R 0 None rest"
    and "rx_scan R 0 p g = []"
proof -
  from absent_line [OF assms(5,6,7), of rest]
  have "rx_scan R 0 p ((g @ [CHR 0x0A]) @ rest) = rx_scan R 0 (consumed (g @ [CHR 0x0A]) p) rest"
    by (rule absent_pass [OF assms(1,2)])
  with rx_scan_prev [OF assms(3), of 0 "consumed (g @ [CHR 0x0A]) p" rest None]
  show "rx_scan R 0 p (g @ CHR 0x0A # rest) = rx_scan R 0 None rest"
    by simp
  from absent_end [OF assms(7)]
  have "rx_scan R 0 p (g @ []) = rx_scan R 0 (consumed g p) []"
    by (rule absent_pass [OF assms(1,2)])
  with assms(4) show "rx_scan R 0 p g = []"
    by (simp add: rx_needs_char_def)
qed

lemma key_no_newline:
  "CHR 0x0A \<notin> set (map upperChar ''font-family'')" "''font-family'' \<noteq> []"
  "CHR 0x0A \<notin> set (map upperChar ''@font-face'')" "''@font-face'' \<noteq> []"
  by (simp_all add: upperChar_def)

lemma fontFamily_closed:
  assumes "closedFragment f"
  shows "rx_scan fontFamilyRegex 0 p (f @ CHR 0x0A # rest)
     = rx_scan fontFamilyRegex 0 p f @ rx_scan fontFamilyRegex 0 None rest"
proof -
  let ?R = fontFamilyRegex
  let ?a = "fragmentHead f" and ?g = "fragmentTail f"
  from assms have g: "absent ''font-family'' ?g [CHR 0x0A]"
    by (simp add: closedFragment_def)
  note tp = tail_pass [OF fontFamilyRegex_key font_regexes_no_boundary(1)
      fontFamilyRegex_needs_char key_no_newline(1,2) g]
  show ?thesis
  proof (cases "?a = []")
    case True
    with fragment_cut [of f] have "f = ?g" by simp
    with tp(1) [of p rest] tp(2) [of p] show ?thesis by simp
  next
    case False
    let ?t = "last ?a"
    from False have a: "?a = butlast ?a @ [?t]" by simp
    from fragmentHead_last [OF False] have t: "?t \<in> set '';{}''" .
    have f: "f = butlast ?a @ ?t # ?g"
      using fragment_cut [of f] a by (metis append.assoc append_Cons append_Nil)
    have "rx_scan ?R 0 p (butlast ?a @ ?t # (?g @ CHR 0x0A # rest))
        = rx_scan ?R 0 p (butlast ?a) @ rx_scan ?R 0 (Some ?t) (?g @ CHR 0x0A # rest)"
      by (rule rx_scan_avoid [OF fontFamilyRegex_avoids [OF t] fontFamilyRegex_needs_char]) simp
    moreover have "rx_scan ?R 0 p (butlast ?a @ ?t # ?g)
        = rx_scan ?R 0 p (butlast ?a) @ rx_scan ?R 0 (Some ?t) ?g"
      by (rule rx_scan_avoid [OF fontFamilyRegex_avoids [OF t] fontFamilyRegex_needs_char]) simp
    moreover have "(butlast ?a @ ?t # ?g) @ CHR 0x0A # rest = butlast ?a @ ?t # (?g @ CHR 0x0A # rest)"
      by simp
    ultimately have "rx_scan ?R 0 p ((butlast ?a @ ?t # ?g) @ CHR 0x0A # rest)
        = rx_scan ?R 0 p (butlast ?a @ ?t # ?g) @ rx_scan ?R 0 None rest"
      using tp(1) [of "Some ?t" rest] tp(2) [of "Some ?t"] by (simp only: append_Nil2)
    with f show ?thesis by simp
  qed
qed

lemma fontFace_closed:
  assumes "closedFragment f"
  shows "rx_scan fontFaceRegex 0 p (f @ CHR 0x0A # rest)
     = rx_scan fontFaceRegex 0 p f @ rx_scan fontFaceRegex 0 None rest"
proof -
  let ?R = fontFaceRegex
  let ?a = "fragmentHead f" and ?g = "fragmentTail f"
  note tp = tail_pass [OF fontFaceRegex_key font_regexes_no_boundary(2)
      fontFaceRegex_needs_char key_no_newline(3,4)]
  show ?thesis
  proof (cases "?a \<noteq> [] \<and> last ?a = CHR ''}''")
    case True
    with assms have g: "absent ''@font-face'' ?g [CHR 0x0A]"
      by (simp add: closedFragment_def)
    from True have a: "?a \<noteq> []" "last ?a = CHR ''}''" by simp_all
    have "rx_scan ?R 0 p (?a @ ?g @ CHR 0x0A # rest)
        = rx_scan ?R 0 p ?a @ rx_scan ?R 0 (Some CHR ''}'') (?g @ CHR 0x0A # rest)"
      by (rule fontFace_scan_closed [OF a])
    moreover have "rx_scan ?R 0 p (?a @ ?g) = rx_scan ?R 0 p ?a @ rx_scan ?R 0 (Some CHR ''}'') ?g"
      by (rule fontFace_scan_closed [OF a])
    ultimately have "rx_scan ?R 0 p ((?a @ ?g) @ CHR 0x0A # rest)
        = rx_scan ?R 0 p (?a @ ?g) @ rx_scan ?R 0 None rest"
      using tp(1) [OF g, of "Some CHR ''}''" rest] tp(2) [OF g, of "Some CHR ''}''"]
      by (simp only: append_Nil2 append_assoc)
    then show ?thesis by (simp only: fragment_cut)
  next
    case False
    with assms have "absent ''@font-face'' f [CHR 0x0A]"
      by (simp add: closedFragment_def)
    from tp(1) [OF this, of p rest] tp(2) [OF this, of p] show ?thesis by simp
  qed
qed

text \<open>Over closed fragments joined by newlines, the scans for the font declarations
  work fragment by fragment.\<close>

lemma rx_match_all_join:
  assumes "\<And>f p rest. closedFragment f \<Longrightarrow>
      rx_scan R 0 p (f @ CHR 0x0A # rest) = rx_scan R 0 p f @ rx_scan R 0 None rest"
    and "rx_needs_char R"
  shows "\<forall>f \<in> set frags. closedFragment f \<Longrightarrow>
    rx_match_all R (join [CHR 0x0A] frags) = concat (map (rx_match_all R) frags)"
proof (induction "[CHR 0x0A]" frags rule: join.induct)
  case 1
  from assms(2) have "rx_scan R 0 None [] = []"
    by (simp add: rx_needs_char_def)
  then show ?case by (simp add: rx_match_all_def)
next
  case (2 x)
  then show ?case by simp
next
  case (3 x y ys)
  from 3(2) have "closedFragment x" by simp
  from assms(1) [OF this, of None "join [CHR 0x0A] (y # ys)"] 3 show ?case
    by (simp add: rx_match_all_def)
qed

lemma set_extractFonts:
  "set (extractFonts css)
     = (\<Union>m \<in> set (rx_match_all fontFamilyRegex css). set (declaredFonts (trim (group1 m))))
       \<union> {trim (group1 fm) | m fm. m \<in> set (rx_match_all fontFaceRegex css)
              \<and> rx_exec faceFamilyRegex None (group1 m) = Some fm}"
  unfolding extractFonts_def Let_def set_second_loop set_first_loop by simp

lemma extractFonts_join:
  assumes "\<forall>f \<in> set frags. closedFragment f"
  shows "set (extractFonts (join [CHR 0x0A] frags)) = (\<Union>f \<in> set frags. set (extractFonts f))"
proof -
  have 1: "rx_match_all fontFamilyRegex (join [CHR 0x0A] frags)
      = concat (map (rx_match_all fontFamilyRegex) frags)"
    using fontFamily_closed fontFamilyRegex_needs_char assms by (rule rx_match_all_join)
  have 2: "rx_match_all fontFaceRegex (join [CHR 0x0A] frags)
      = concat (map (rx_match_all fontFaceRegex) frags)"
    using fontFace_closed fontFaceRegex_needs_char assms by (rule rx_match_all_join)
  show ?thesis
    unfolding set_extractFonts 1 2 by auto
qed

section \<open>Fragments that close their references\<close>

lemma step_extend_last:
  "step P (extend (t # Y) d) = map (extend Y) (step P (extend [t] d))"
  by (cases d; cases "snd d") (simp_all add: extend_def)

lemma take_prefix_only: "n \<le> length xs \<Longrightarrow> take n (xs @ ys) = take n xs"
  by simp

lemma rx_match_at_closing:
  assumes post: "post R = Seq q (Chr c)"
    and av: "rx_avoids (icase R) t (pre R)" "rx_avoids (icase R) t (grp R)" "rx_avoids (icase R) t q"
    and nw: "\<not> isWordChar t"
  shows "rx_match_at R (p, u @ t # X) = rx_match_at R (p, u @ [t])"
proof -
  let ?ic = "icase R"
  define L where "L s2 = concat (map (\<lambda>d. rx_run ?ic (Chr c) (fst d, snd d @ [t])) (rx_run ?ic q s2))"
    for s2
  define W where "W = concat (map (\<lambda>s1. concat (map (\<lambda>s2. map (\<lambda>s3. (s1, s2, s3))
        (L s2)) (rx_run ?ic (grp R) s1))) (rx_run ?ic (pre R) (p, u)))"
  have chr: "rx_run ?ic (Chr c) (extend (t # Y) d) = map (extend Y) (rx_run ?ic (Chr c) (fst d, snd d @ [t]))"
    for Y d
    using step_extend_last [of _ t Y d] by (simp add: extend_def)
  have postc: "rx_run ?ic (post R) (extend (t # Y) s2) = map (extend Y) (L s2)" for Y s2
  proof -
    have "rx_run ?ic (Seq q (Chr c)) (extend (t # Y) s2)
        = concat (map (\<lambda>d. rx_run ?ic (Chr c) (extend (t # Y) d)) (rx_run ?ic q s2))"
      by (simp only: rx_run.simps(5) rx_run_avoid [OF av(3) nw] map_map comp_def)
    also have "\<dots> = concat (map (\<lambda>d. map (extend Y) (rx_run ?ic (Chr c) (fst d, snd d @ [t])))
        (rx_run ?ic q s2))"
      by (simp only: chr)
    also have "\<dots> = map (extend Y) (L s2)"
      by (simp only: L_def map_concat map_map comp_def)
    finally show ?thesis by (simp only: post)
  qed
  have paths: "rx_paths R (p, u @ t # Y)
      = map (\<lambda>(s1, s2, s3). (extend (t # Y) s1, extend (t # Y) s2, extend Y s3)) W" for Y
  proof -
    have e: "(p, u @ t # Y) = extend (t # Y) (p, u)" by (simp add: extend_def)
    show ?thesis
      unfolding rx_paths_def e W_def
      by (simp add: rx_run_avoid [OF av(1) nw] rx_run_avoid [OF av(2) nw] postc map_concat comp_def)
  qed
  have closed: "rx_match_at R (p, u @ t # Y) =
      (case W of [] \<Rightarrow> None
       | (s1, s2, s3) # _ \<Rightarrow>
           Some \<lparr>whole = take (length u + 1 - length (snd s3)) (u @ [t]),
                 group1 = take (length (snd s1) - length (snd s2)) (snd s1)\<rparr>)" for Y
  proof (cases W)
    case Nil
    then show ?thesis by (simp add: rx_match_at_def paths)
  next
    case (Cons tr trs)
    obtain s1 s2 s3 where tr: "tr = (s1, s2, s3)" by (cases tr)
    with Cons have "(s1, s2, s3) \<in> set W" by simp
    then obtain d where m: "s1 \<in> set (rx_run ?ic (pre R) (p, u))" "s2 \<in> set (rx_run ?ic (grp R) s1)"
      "d \<in> set (rx_run ?ic q s2)" "s3 \<in> set (rx_run ?ic (Chr c) (fst d, snd d @ [t]))"
      unfolding W_def L_def by auto
    from rx_run_length [OF m(1)] rx_run_length [OF m(2)] rx_run_length [OF m(3)]
      rx_run_length [OF m(4)]
    have len: "length (snd s1) \<le> length u" "length (snd s2) \<le> length (snd s1)"
      "length (snd s3) \<le> length (snd s2) + 1"
      by simp_all
    have "take (length u + 1 - length (snd s3)) ((u @ [t]) @ Y)
        = take (length u + 1 - length (snd s3)) (u @ [t])"
      by (rule take_prefix_only) simp
    moreover have "length (u @ t # Y) - length (snd s3 @ Y) = length u + 1 - length (snd s3)"
      by simp
    moreover from len(2) have "take (length (snd s1 @ t # Y) - length (snd s2 @ t # Y)) (snd s1 @ t # Y)
        = take (length (snd s1) - length (snd s2)) (snd s1)"
      by simp
    ultimately show ?thesis
      using Cons tr by (simp add: rx_match_at_def paths extend_def)
  qed
  from closed [of X] closed [of "[]"] show ?thesis by simp
qed

lemma url_cut: "urlHead f @ urlTail f = f"
  unfolding urlHead_def urlTail_def rev_append [symmetric] takeWhile_dropWhile_id
  by simp

lemma urlHead_last: "urlHead f \<noteq> [] \<Longrightarrow> last (urlHead f) = CHR '')''"
proof -
  assume "urlHead f \<noteq> []"
  then have ne: "dropWhile (noneOf '')'') (rev f) \<noteq> []"
    by (simp add: urlHead_def)
  then have "\<not> noneOf '')'' (hd (dropWhile (noneOf '')'') (rev f)))"
    by (rule hd_dropWhile)
  with ne show ?thesis
    by (simp add: urlHead_def last_rev noneOf_def)
qed

lemma bgRegex_sel:
  "icase bgRegex = False"
  "pre bgRegex = Seq (lit ''url('') (Opt (Cls (oneOf quotes)))"
  "grp bgRegex = Plus (Cls (noneOf (quotes @ '')'')))"
  "post bgRegex = Seq (Opt (Cls (oneOf quotes))) (Chr CHR '')'')"
  by (simp_all add: bgRegex_def del: lit.simps)

lemma bgRegex_avoids:
  "rx_avoids (icase bgRegex) (CHR '')'') (pre bgRegex)"
  "rx_avoids (icase bgRegex) (CHR '')'') (grp bgRegex)"
  "rx_avoids (icase bgRegex) (CHR '')'') (Opt (Cls (oneOf quotes)))"
  "\<not> isWordChar (CHR '')'')"
  by (simp_all add: bgRegex_def oneOf_def noneOf_def quotes_def isWordChar_def Plus_def)

lemma bgRegex_needs_char: "rx_needs_char bgRegex"
  by (simp add: rx_needs_char_def rx_match_at_def rx_paths_def bgRegex_def)

lemma bgRegex_no_boundary: "rx_no_boundary_all bgRegex"
  by (simp add: rx_no_boundary_all_def bgRegex_def Plus_def)

lemma bg_local:
  assumes "a2 \<noteq> []" "last a2 = CHR '')''"
  shows "rx_match_at bgRegex (q, a2 @ w) = rx_match_at bgRegex (q, a2)"
proof -
  from assms obtain u where a2: "a2 = u @ [CHR '')'']"
    by (metis append_butlast_last_id)
  have "rx_match_at bgRegex (q, u @ CHR '')'' # w) = rx_match_at bgRegex (q, u @ [CHR '')''])"
    by (rule rx_match_at_closing [OF bgRegex_sel(4) bgRegex_avoids])
  then show ?thesis
    unfolding a2 by simp
qed

lemma bg_scan_closed:
  assumes "a \<noteq> []" "last a = CHR '')''"
  shows "rx_scan bgRegex 0 p (a @ w) = rx_scan bgRegex 0 p a @ rx_scan bgRegex 0 (Some CHR '')'') w"
proof -
  have "\<forall>q a1 a2. a = a1 @ a2 \<and> a2 \<noteq> [] \<longrightarrow>
      rx_match_at bgRegex (q, a2 @ w) = rx_match_at bgRegex (q, a2)"
    using assms by (auto intro!: bg_local)
  from rx_scan_local [OF bgRegex_needs_char this, of 0 p] assms
  show ?thesis by (simp add: consumed_def)
qed

text \<open>No match starts where the word that the regular expression begins with does not
  stand, in whatever case.\<close>

lemma match_needs_word:
  assumes "pre R = Seq (lit key) r"
    and "\<not> ci_eq True (take (length key) s) key"
  shows "rx_match_at R (q, s) = None"
proof -
  from assms(2) have "\<not> ci_eq (icase R) (take (length key) s) key"
    by (auto simp: ci_eq_def)
  then have "rx_run (icase R) (Seq (lit key) r) (q, s) = []"
    by (rule lit_start_fails)
  with assms(1) have "rx_run (icase R) (pre R) (q, s) = []"
    by (simp only:)
  then show ?thesis by (rule rx_match_at_pre_fails)
qed

lemma absent_pass_word:
  assumes "pre R = Seq (lit key) r" "absent key u rest"
  shows "rx_scan R 0 p (u @ rest) = rx_scan R 0 (consumed u p) rest"
proof (rule rx_scan_pass, intro allI impI)
  fix a1 a2 q assume "u = a1 @ a2 \<and> a2 \<noteq> []"
  with assms(2) have "\<not> ci_eq True (take (length key) (a2 @ rest)) key"
    by (auto dest: absent_suffix)
  with assms(1) show "rx_match_at R (q, a2 @ rest) = None"
    by (rule match_needs_word)
qed

lemma tail_pass_word:
  assumes "pre R = Seq (lit key) r" "rx_no_boundary_all R" "rx_needs_char R"
    and "CHR 0x0A \<notin> set (map upperChar key)" "key \<noteq> []"
    and "absent key g [CHR 0x0A]"
  shows "rx_scan R 0 p (g @ CHR 0x0A # rest) = rx_scan R 0 None rest"
    and "rx_scan R 0 p g = []"
proof -
  from absent_line [OF assms(4,5,6), of rest]
  have "rx_scan R 0 p ((g @ [CHR 0x0A]) @ rest) = rx_scan R 0 (consumed (g @ [CHR 0x0A]) p) rest"
    by (rule absent_pass_word [OF assms(1)])
  with rx_scan_prev [OF assms(2), of 0 "consumed (g @ [CHR 0x0A]) p" rest None]
  show "rx_scan R 0 p (g @ CHR 0x0A # rest) = rx_scan R 0 None rest"
    by simp
  from absent_end [OF assms(6)]
  have "rx_scan R 0 p (g @ []) = rx_scan R 0 (consumed g p) []"
    by (rule absent_pass_word [OF assms(1)])
  with assms(3) show "rx_scan R 0 p g = []"
    by (simp add: rx_needs_char_def)
qed

lemma url_no_newline:
  "CHR 0x0A \<notin> set (map upperChar ''url('')" "''url('' \<noteq> []"
  by (simp_all add: upperChar_def)

lemma bg_closed:
  assumes "closedUrls f"
  shows "rx_scan bgRegex 0 p (f @ CHR 0x0A # rest)
     = rx_scan bgRegex 0 p f @ rx_scan bgRegex 0 None rest"
proof -
  let ?R = bgRegex
  let ?a = "urlHead f" and ?g = "urlTail f"
  from assms have g: "absent ''url('' ?g [CHR 0x0A]"
    by (simp add: closedUrls_def)
  note tp = tail_pass_word [OF bgRegex_sel(2) bgRegex_no_boundary bgRegex_needs_char url_no_newline g]
  show ?thesis
  proof (cases "?a = []")
    case True
    with url_cut [of f] have "f = ?g" by simp
    with tp(1) [of p rest] tp(2) [of p] show ?thesis by simp
  next
    case False
    from urlHead_last [OF False] have a: "?a \<noteq> []" "last ?a = CHR '')''"
      using False by simp_all
    have "rx_scan ?R 0 p (?a @ ?g @ CHR 0x0A # rest)
        = rx_scan ?R 0 p ?a @ rx_scan ?R 0 (Some CHR '')'') (?g @ CHR 0x0A # rest)"
      by (rule bg_scan_closed [OF a])
    moreover have "rx_scan ?R 0 p (?a @ ?g) = rx_scan ?R 0 p ?a @ rx_scan ?R 0 (Some CHR '')'') ?g"
      by (rule bg_scan_closed [OF a])
    ultimately have "rx_scan ?R 0 p ((?a @ ?g) @ CHR 0x0A # rest)
        = rx_scan ?R 0 p (?a @ ?g) @ rx_scan ?R 0 None rest"
      using tp(1) [of "Some CHR '')''" rest] tp(2) [of "Some CHR '')''"]
      by (simp only: append_Nil2 append_assoc)
    then show ?thesis by (simp only: url_cut)
  qed
qed

text \<open>Over fragments that close their references and are joined by newlines, the
  background-image extractor works fragment by fragment.\<close>

lemma rx_match_all_join_urls:
  "\<forall>f \<in> set frags. closedUrls f \<Longrightarrow>
   rx_match_all bgRegex (join [CHR 0x0A] frags) = concat (map (rx_match_all bgRegex) frags)"
proof (induction "[CHR 0x0A]" frags rule: join.induct)
  case 1
  from bgRegex_needs_char show ?case
    by (simp add: rx_match_all_def rx_needs_char_def)
next
  case (2 x)
  then show ?case by simp
next
  case (3 x y ys)
  from 3(2) have "closedUrls x" by simp
  from bg_closed [OF this, of None "join [CHR 0x0A] (y # ys)"] 3 show ?case
    by (simp add: rx_match_all_def)
qed

lemma extractBackgroundImages_join:
  assumes "\<forall>f \<in> set frags. closedUrls f"
  shows "extractBackgroundImages P (join [CHR 0x0A] frags) url
     = concat (map (\<lambda>f. extractBackgroundImages P f url) frags)"
  unfolding extractBackgroundImages_def rx_match_all_join_urls [OF assms]
  by (induction frags) simp_all

section \<open>The entries of the font-family declarations\<close>

lemma rx_scan_all_skipped:
  "rx_needs_char R \<Longrightarrow> rx_scan R (length xs) p xs = []"
  by (induction xs arbitrary: p) (simp_all add: rx_needs_char_def)

lemma fontFamily_single:
  assumes w: "length w = 11" "map upperChar w = ''FONT-FAMILY''"
    and ws: "\<forall>c \<in> set ws. isSpace c"
    and v: "\<forall>c \<in> set v. noneOf '';{}'' c" "\<exists>c \<in> set v. \<not> isSpace c"
  shows "rx_match_all fontFamilyRegex (w @ ws @ CHR '':'' # v)
     = [\<lparr>whole = w @ ws @ CHR '':'' # v, group1 = dropWhile isSpace v\<rparr>]"
proof -
  from w(1) obtain x xs where wx: "w = x # xs" by (cases w) auto
  let ?t = "xs @ ws @ CHR '':'' # v"
  from fontFamily_match_at [OF w ws v, of "[]" None]
  have m: "rx_match_at fontFamilyRegex (None, x # ?t)
      = Some \<lparr>whole = x # ?t, group1 = dropWhile isSpace v\<rparr>"
    by (simp add: wx)
  have "rx_scan fontFamilyRegex (length ?t) (Some x) ?t = []"
    by (rule rx_scan_all_skipped [OF fontFamilyRegex_needs_char])
  with m show ?thesis
    by (simp add: rx_match_all_def wx)
qed

lemma seq_mem:
  "z \<in> set (rx_run ic (Seq a b) st) \<Longrightarrow> \<exists>x \<in> set (rx_run ic a st). z \<in> set (rx_run ic b x)"
  by simp

lemma fontFace_needs_brace:
  assumes "CHR ''{'' \<notin> set s"
  shows "rx_match_at fontFaceRegex (p, s) = None"
proof -
  have "rx_run True (Seq (lit ''@font-face'') (Seq (Star (Cls isSpace)) (Chr CHR ''{''))) (p, s) = []"
  proof (rule ccontr)
    assume "rx_run True (Seq (lit ''@font-face'') (Seq (Star (Cls isSpace)) (Chr CHR ''{''))) (p, s) \<noteq> []"
    then obtain z where "z \<in> set (rx_run True (Seq (lit ''@font-face'') (Seq (Star (Cls isSpace)) (Chr CHR ''{''))) (p, s))"
      by (meson last_in_set)
    from seq_mem [OF this] obtain x where x: "x \<in> set (rx_run True (lit ''@font-face'') (p, s))"
      and "z \<in> set (rx_run True (Seq (Star (Cls isSpace)) (Chr CHR ''{'')) x)"
      by blast
    from seq_mem [OF this(2)] obtain y where y: "y \<in> set (rx_run True (Star (Cls isSpace)) x)"
      and z: "z \<in> set (rx_run True (Chr CHR ''{'') y)"
      by blast
    from rx_run_set [OF x] rx_run_set [OF y] have sub: "set (snd y) \<subseteq> set s" by auto
    from z obtain c cs where "snd y = c # cs" "upperChar c = upperChar CHR ''{''"
      by (cases y; cases "snd y") (auto split: if_splits)
    with upper_eq_punct [of "CHR ''{''" c] have "CHR ''{'' \<in> set (snd y)" by simp
    with sub assms show False by blast
  qed
  then have "rx_run (icase fontFaceRegex) (pre fontFaceRegex) (p, s) = []"
    by (simp only: fontFaceRegex_sel)
  then show ?thesis by (rule rx_match_at_pre_fails)
qed

lemma fontFace_none:
  assumes "CHR ''{'' \<notin> set s"
  shows "rx_match_all fontFaceRegex s = []"
proof -
  have "\<forall>a1 a2 q. s = a1 @ a2 \<and> a2 \<noteq> [] \<longrightarrow> rx_match_at fontFaceRegex (q, a2 @ []) = None"
    using assms by (auto intro!: fontFace_needs_brace)
  then have "rx_scan fontFaceRegex 0 None (s @ []) = rx_scan fontFaceRegex 0 (consumed s None) []"
    by (rule rx_scan_pass)
  with fontFaceRegex_needs_char show ?thesis
    by (simp add: rx_match_all_def rx_needs_char_def)
qed

lemma family_word_no_brace:
  assumes "map upperChar w = ''FONT-FAMILY''"
  shows "CHR ''{'' \<notin> set w"
proof
  assume "CHR ''{'' \<in> set w"
  then have "upperChar CHR ''{'' \<in> set (map upperChar w)" by simp
  with assms show False by (simp add: upper_brace)
qed

lemma extractFonts_single:
  assumes w: "length w = 11" "map upperChar w = ''FONT-FAMILY''"
    and ws: "\<forall>c \<in> set ws. isSpace c"
    and v: "\<forall>c \<in> set v. noneOf '';{}'' c" "\<exists>c \<in> set v. \<not> isSpace c"
  shows "extractFonts (w @ ws @ CHR '':'' # v) = first_occurrences (declaredFonts (trim v))"
proof -
  let ?css = "w @ ws @ CHR '':'' # v"
  have "\<not> isSpace CHR ''{''" by (simp add: isSpace_def)
  with ws have "CHR ''{'' \<notin> set ws" by blast
  moreover from v(1) have "CHR ''{'' \<notin> set v" by (auto simp: noneOf_def)
  ultimately have "CHR ''{'' \<notin> set ?css"
    using family_word_no_brace [OF w(2)] by simp
  then have face: "rx_match_all fontFaceRegex ?css = []"
    by (rule fontFace_none)
  have fam: "rx_match_all fontFamilyRegex ?css
      = [\<lparr>whole = ?css, group1 = dropWhile isSpace v\<rparr>]"
    by (rule fontFamily_single [OF assms])
  have "extractFonts ?css = addDeclaration [] (trim (dropWhile isSpace v))"
    unfolding extractFonts_def Let_def face fam by simp
  also have "\<dots> = first_occurrences (declaredFonts (trim v))"
    by (simp only: addDeclaration_declaredFonts set_add_all_Nil trim_dropWhile)
  finally show ?thesis .
qed

lemma declaredFonts_explicit:
  "declaredFonts d =
     filter (\<lambda>f. f \<noteq> [] \<and> map upperChar f \<notin> set [''INHERIT'', ''INITIAL'', ''UNSET'', ''NONE''])
       (map (\<lambda>tok. filter (\<lambda>c. \<not> isQuote c) (trim tok)) (split_on CHR '','' d))"
proof -
  have "(\<lambda>cleaned. cleaned \<noteq> [] \<and> \<not> isCssWideKeyword cleaned)
      = (\<lambda>f. f \<noteq> [] \<and> map upperChar f \<notin> set [''INHERIT'', ''INITIAL'', ''UNSET'', ''NONE''])"
    by (simp only: isCssWideKeyword_iff)
  moreover have "cleanFont = (\<lambda>tok. filter (\<lambda>c. \<not> isQuote c) (trim tok))"
    by (rule ext) (simp only: cleanFont_def)
  ultimately show ?thesis
    by (simp only: declaredFonts_def)
qed

text \<open>
  Claim C6, as stated, fails.  A token is trimmed first, and then every quote character
  is removed from it, wherever it stands; what the quotes enclosed is not trimmed
  again.  So the token \<^verbatim>\<open>O'Neil\<close> is added as \<^verbatim>\<open>ONeil\<close>, and the token \<^verbatim>\<open>" Arial "\<close> is
  added with the blanks around it.
\<close>

theorem extractFonts_removes_inner_quotes:
  \<open>extractFonts ''font-family: O'Neil, " Arial "'' = [''ONeil'', '' Arial '']
   \<and> spec_declaredFonts ''O'Neil, " Arial "'' = [''O'Neil'', ''Arial'']
   \<and> ''O'Neil'' \<notin> set (extractFonts ''font-family: O'Neil, " Arial "'')
   \<and> ''Arial'' \<notin> set (extractFonts ''font-family: O'Neil, " Arial "'')\<close>
  by code_simp

text \<open>
  Claim C6, amended.  For every declaration \<^verbatim>\<open>font-family: <value>\<close> of the CSS text (the
  property name in any case, white space allowed before and after the colon, the value
  running up to the next \<^verbatim>\<open>;\<close>, \<^verbatim>\<open>{\<close> or \<^verbatim>\<open>}\<close> or to the end of the text; the
  first \<^verbatim>\<open>font-family\<close> behind the start of the text or behind a \<^verbatim>\<open>;\<close>, \<^verbatim>\<open>{\<close> or \<^verbatim>\<open>}\<close>),
  \<open>extractFonts\<close>
  splits the trimmed value at the commas, trims each token and removes every quote
  character from it, discards the tokens that are then empty or are one of the keywords
  \<^verbatim>\<open>inherit\<close>, \<^verbatim>\<open>initial\<close>, \<^verbatim>\<open>unset\<close>, \<^verbatim>\<open>none\<close> in any case, and adds the others.  Nothing
  else comes from the declarations: every entry of the result is such a token of a
  match of \<open>fontFamilyRegex\<close>, or the family of a \<^verbatim>\<open>@font-face\<close> block.  For a text that
  is one declaration the result is exactly the list of these tokens, each one where it
  first occurs.  So \<^verbatim>\<open>font-family: Arial, sans-serif\<close> yields exactly \<^verbatim>\<open>Arial\<close> and
  \<^verbatim>\<open>sans-serif\<close>, and \<^verbatim>\<open>font-family: inherit\<close> yields no entry.
\<close>

theorem extractFonts_declarations:
  \<open>(length w = 11 \<and> map upperChar w = ''FONT-FAMILY'' \<and> (\<forall>c \<in> set ws. isSpace c)
      \<and> (\<forall>c \<in> set v. c \<notin> set '';{}'') \<and> (\<exists>c \<in> set v. \<not> isSpace c)
      \<and> (a = [] \<or> last a \<in> set '';{}'') \<and> absent ''font-family'' g w
      \<and> (b = [] \<or> hd b \<in> set '';{}'')
     \<longrightarrow> (\<forall>tok \<in> set (split_on CHR '','' (trim v)).
           filter (\<lambda>c. \<not> isQuote c) (trim tok) \<noteq> []
           \<and> map upperChar (filter (\<lambda>c. \<not> isQuote c) (trim tok))
               \<notin> set [''INHERIT'', ''INITIAL'', ''UNSET'', ''NONE'']
           \<longrightarrow> filter (\<lambda>c. \<not> isQuote c) (trim tok)
                 \<in> set (extractFonts (a @ g @ w @ ws @ CHR '':'' # v @ b))))
   \<and> ((f \<in> set (extractFonts css)) =
        ((\<exists>m \<in> set (rx_match_all fontFamilyRegex css).
            \<exists>tok \<in> set (split_on CHR '','' (trim (group1 m))).
              f = filter (\<lambda>c. \<not> isQuote c) (trim tok) \<and> f \<noteq> []
              \<and> map upperChar f \<notin> set [''INHERIT'', ''INITIAL'', ''UNSET'', ''NONE''])
         \<or> (\<exists>m \<in> set (rx_match_all fontFaceRegex css).
              \<exists>fm. rx_exec faceFamilyRegex None (group1 m) = Some fm \<and> f = trim (group1 fm))))
   \<and> (length w = 11 \<and> map upperChar w = ''FONT-FAMILY'' \<and> (\<forall>c \<in> set ws. isSpace c)
        \<and> (\<forall>c \<in> set v. c \<notin> set '';{}'') \<and> (\<exists>c \<in> set v. \<not> isSpace c)
       \<longrightarrow> extractFonts (w @ ws @ CHR '':'' # v)
           = first_occurrences
               (filter (\<lambda>f. f \<noteq> []
                          \<and> map upperChar f \<notin> set [''INHERIT'', ''INITIAL'', ''UNSET'', ''NONE''])
                 (map (\<lambda>tok. filter (\<lambda>c. \<not> isQuote c) (trim tok))
                   (split_on CHR '','' (trim v)))))
   \<and> extractFonts ''font-family: Arial, sans-serif'' = [''Arial'', ''sans-serif'']
   \<and> extractFonts ''font-family: inherit'' = []
   \<and> extractFonts ''font-family: a, , none, Initial, UNSET, "inherit", b, a'' = [''a'', ''b'']\<close>
proof (intro conjI impI ballI)
  fix tok
  assume "length w = 11 \<and> map upperChar w = ''FONT-FAMILY'' \<and> (\<forall>c \<in> set ws. isSpace c)
      \<and> (\<forall>c \<in> set v. c \<notin> set '';{}'') \<and> (\<exists>c \<in> set v. \<not> isSpace c)
      \<and> (a = [] \<or> last a \<in> set '';{}'') \<and> absent ''font-family'' g w
      \<and> (b = [] \<or> hd b \<in> set '';{}'')"
  then have w: "length w = 11" "map upperChar w = ''FONT-FAMILY''"
    and ws: "\<forall>c \<in> set ws. isSpace c"
    and v: "\<forall>c \<in> set v. noneOf '';{}'' c" "\<exists>c \<in> set v. \<not> isSpace c"
    and before: "a = [] \<or> last a \<in> set '';{}''"
    and between: "absent ''font-family'' g w"
    and after: "b = [] \<or> \<not> noneOf '';{}'' (hd b)"
    unfolding noneOf_def by blast+
  assume tok: "tok \<in> set (split_on CHR '','' (trim v))"
    and ok: "filter (\<lambda>c. \<not> isQuote c) (trim tok) \<noteq> []
           \<and> map upperChar (filter (\<lambda>c. \<not> isQuote c) (trim tok))
               \<notin> set [''INHERIT'', ''INITIAL'', ''UNSET'', ''NONE'']"
  from tok ok have "filter (\<lambda>c. \<not> isQuote c) (trim tok) \<in> set (declaredFonts (trim v))"
    unfolding set_declaredFonts by blast
  with extractFonts_declared [OF fontFamily_scan_mem [OF w ws v before between after]]
  show "filter (\<lambda>c. \<not> isQuote c) (trim tok)
      \<in> set (extractFonts (a @ g @ w @ ws @ CHR '':'' # v @ b))"
    by (auto simp: trim_dropWhile)
next
  show "(f \<in> set (extractFonts css)) =
        ((\<exists>m \<in> set (rx_match_all fontFamilyRegex css).
            \<exists>tok \<in> set (split_on CHR '','' (trim (group1 m))).
              f = filter (\<lambda>c. \<not> isQuote c) (trim tok) \<and> f \<noteq> []
              \<and> map upperChar f \<notin> set [''INHERIT'', ''INITIAL'', ''UNSET'', ''NONE''])
         \<or> (\<exists>m \<in> set (rx_match_all fontFaceRegex css).
              \<exists>fm. rx_exec faceFamilyRegex None (group1 m) = Some fm \<and> f = trim (group1 fm)))"
    unfolding set_extractFonts Un_iff UN_iff set_declaredFonts by blast
next
  assume "length w = 11 \<and> map upperChar w = ''FONT-FAMILY'' \<and> (\<forall>c \<in> set ws. isSpace c)
        \<and> (\<forall>c \<in> set v. c \<notin> set '';{}'') \<and> (\<exists>c \<in> set v. \<not> isSpace c)"
  then have w: "length w = 11" "map upperChar w = ''FONT-FAMILY''"
    and ws: "\<forall>c \<in> set ws. isSpace c"
    and v: "\<forall>c \<in> set v. noneOf '';{}'' c" "\<exists>c \<in> set v. \<not> isSpace c"
    unfolding noneOf_def by blast+
  from extractFonts_single [OF w ws v]
  show "extractFonts (w @ ws @ CHR '':'' # v)
           = first_occurrences
               (filter (\<lambda>f. f \<noteq> []
                          \<and> map upperChar f \<notin> set [''INHERIT'', ''INITIAL'', ''UNSET'', ''NONE''])
                 (map (\<lambda>tok. filter (\<lambda>c. \<not> isQuote c) (trim tok))
                   (split_on CHR '','' (trim v))))"
    by (simp only: declaredFonts_explicit)
next
  show "extractFonts ''font-family: Arial, sans-serif'' = [''Arial'', ''sans-serif'']"
    by code_simp
next
  show "extractFonts ''font-family: inherit'' = []"
    by code_simp
next
  show \<open>extractFonts ''font-family: a, , none, Initial, UNSET, "inherit", b, a'' = [''a'', ''b'']\<close>
    by code_simp
qed

theorem extractFonts_declarations_witness:
  \<open>''Open Sans''
       \<in> set (extractFonts (''p{color:red;'' @ '' /* fonts */ '' @ ''Font-Family'' @ '' '' @ CHR '':''
                 # '' "Open Sans", Arial, inherit'' @ '';}''))
   \<and> extractFonts ''p{color:red; /* fonts */ Font-Family : "Open Sans", Arial, inherit;}''
       = [''Open Sans'', ''Arial'']
   \<and> extractFonts (''Font-Family'' @ '' '' @ CHR '':''
         # '' "Open Sans", , none, Arial, Inherit, Arial, " x "'')
       = [''Open Sans'', ''Arial'', '' x '']\<close>
proof -
  have h: "length ''Font-Family'' = 11" "map upperChar ''Font-Family'' = ''FONT-FAMILY''"
    "\<forall>c \<in> set '' ''. isSpace c"
    by code_simp+
  have hv: \<open>\<forall>c \<in> set '' "Open Sans", Arial, inherit''. c \<notin> set '';{}''\<close>
    \<open>\<exists>c \<in> set '' "Open Sans", Arial, inherit''. \<not> isSpace c\<close>
    by code_simp+
  have hab: "''p{color:red;'' = [] \<or> last ''p{color:red;'' \<in> set '';{}''"
    "absent ''font-family'' '' /* fonts */ '' ''Font-Family''"
    "'';}'' = [] \<or> hd '';}'' \<in> set '';{}''"
    by code_simp+
  have tok: \<open>''"Open Sans"'' \<in> set (split_on CHR '','' (trim '' "Open Sans", Arial, inherit''))\<close>
    by code_simp
  have cl: \<open>filter (\<lambda>c. \<not> isQuote c) (trim ''"Open Sans"'') = ''Open Sans''\<close>
    by code_simp
  have ok: \<open>filter (\<lambda>c. \<not> isQuote c) (trim ''"Open Sans"'') \<noteq> []
      \<and> map upperChar (filter (\<lambda>c. \<not> isQuote c) (trim ''"Open Sans"''))
          \<notin> set [''INHERIT'', ''INITIAL'', ''UNSET'', ''NONE'']\<close>
    by code_simp
  have e: \<open>extractFonts ''p{color:red; /* fonts */ Font-Family : "Open Sans", Arial, inherit;}''
       = [''Open Sans'', ''Arial'']\<close>
    by code_simp
  have \<open>filter (\<lambda>c. \<not> isQuote c) (trim ''"Open Sans"'')
       \<in> set (extractFonts (''p{color:red;'' @ '' /* fonts */ '' @ ''Font-Family'' @ '' '' @ CHR '':''
                 # '' "Open Sans", Arial, inherit'' @ '';}''))\<close>
    by (rule extractFonts_declarations [THEN conjunct1, THEN mp,
        OF conjI [OF h(1) conjI [OF h(2) conjI [OF h(3) conjI [OF hv(1) conjI [OF hv(2)
          conjI [OF hab(1) conjI [OF hab(2) hab(3)]]]]]]], THEN bspec, OF tok, THEN mp, OF ok])
  then have 1: \<open>''Open Sans''
       \<in> set (extractFonts (''p{color:red;'' @ '' /* fonts */ '' @ ''Font-Family'' @ '' '' @ CHR '':''
                 # '' "Open Sans", Arial, inherit'' @ '';}''))\<close>
    by (simp only: cl)
  have hs: \<open>\<forall>c \<in> set '' "Open Sans", , none, Arial, Inherit, Arial, " x "''. c \<notin> set '';{}''\<close>
    \<open>\<exists>c \<in> set '' "Open Sans", , none, Arial, Inherit, Arial, " x "''. \<not> isSpace c\<close>
    by code_simp+
  have toks: \<open>first_occurrences
       (filter (\<lambda>f. f \<noteq> []
                  \<and> map upperChar f \<notin> set [''INHERIT'', ''INITIAL'', ''UNSET'', ''NONE''])
         (map (\<lambda>tok. filter (\<lambda>c. \<not> isQuote c) (trim tok))
           (split_on CHR '','' (trim '' "Open Sans", , none, Arial, Inherit, Arial, " x "''))))
      = [''Open Sans'', ''Arial'', '' x '']\<close>
    by code_simp
  have \<open>extractFonts (''Font-Family'' @ '' '' @ CHR '':''
         # '' "Open Sans", , none, Arial, Inherit, Arial, " x "'')
      = first_occurrences
       (filter (\<lambda>f. f \<noteq> []
                  \<and> map upperChar f \<notin> set [''INHERIT'', ''INITIAL'', ''UNSET'', ''NONE''])
         (map (\<lambda>tok. filter (\<lambda>c. \<not> isQuote c) (trim tok))
           (split_on CHR '','' (trim '' "Open Sans", , none, Arial, Inherit, Arial, " x "''))))\<close>
    by (rule extractFonts_declarations [THEN conjunct2, THEN conjunct2, THEN conjunct1, THEN mp,
        OF conjI [OF h(1) conjI [OF h(2) conjI [OF h(3) conjI [OF hs(1) hs(2)]]]]])
  then have 2: \<open>extractFonts (''Font-Family'' @ '' '' @ CHR '':''
         # '' "Open Sans", , none, Arial, Inherit, Arial, " x "'')
       = [''Open Sans'', ''Arial'', '' x '']\<close>
    by (simp only: toks)
  from 1 e 2 show ?thesis by (intro conjI)
qed

section \<open>The order of the fragments\<close>

lemma newline_not_hex: "\<not> isHexDigit (CHR 0x0A)"
  by (simp add: isHexDigit_def)

lemma newline_not_word: "\<not> isWordChar (CHR 0x0A)"
  by (simp add: isWordChar_def)

lemma takeWhile_hex_newline:
  "takeWhile isHexDigit (cs @ CHR 0x0A # b) = takeWhile isHexDigit cs"
  by (induction cs) (simp_all add: newline_not_hex)

lemma dropWhile_hex_newline:
  "dropWhile isHexDigit (cs @ CHR 0x0A # b)
     = (if dropWhile isHexDigit cs = [] then CHR 0x0A # b else dropWhile isHexDigit cs @ CHR 0x0A # b)"
  by (induction cs) (simp_all add: newline_not_hex)

lemma spec_color_token_newline:
  "spec_color_token (c # cs @ CHR 0x0A # b) = spec_color_token (c # cs)"
  by (cases "dropWhile isHexDigit cs")
     (simp_all add: spec_color_token_def takeWhile_hex_newline dropWhile_hex_newline
        newline_not_word Let_def dropWhile_all)

lemma spec_color_tokens_newline:
  "spec_color_tokens (a @ CHR 0x0A # b) = spec_color_tokens a @ spec_color_tokens b"
proof (induction a)
  case Nil
  then show ?case by (simp add: spec_color_token_None)
next
  case (Cons c cs)
  then show ?case
    using spec_color_token_newline [of c cs b] by simp
qed

text \<open>Over the fragments joined by newlines, the colour extractor works fragment by
  fragment.\<close>

lemma extractColors_join:
  "extractColors (join [CHR 0x0A] frags) = concat (map extractColors frags)"
proof (induction "[CHR 0x0A]" frags rule: join.induct)
  case 1
  then show ?case by (simp add: extractColors_spec)
next
  case (2 x)
  then show ?case by simp
next
  case (3 x y ys)
  then show ?case
    by (simp add: extractColors_spec spec_color_tokens_newline)
qed

lemma mset_concat_map_perm:
  "mset xs = mset ys \<Longrightarrow> mset (concat (map f xs)) = mset (concat (map f ys))"
proof -
  assume a: "mset xs = mset ys"
  have "mset (concat (map f zs)) = (\<Sum>z\<in>#mset zs. mset (f z))" for zs
    by (induction zs) simp_all
  with a show ?thesis by simp
qed


text \<open>
  Claim C9, as stated, fails for the font extractor and for the background-image
  extractor.  A \<^verbatim>\<open>font-family\<close> value that its fragment leaves without a closing
  semicolon runs on into the fragment that follows it in the combined text, and so does
  an unclosed \<^verbatim>\<open>url(\<close>; what follows depends on the order of the fragments.
\<close>

theorem extractFonts_order_sensitive:
  "mset [''color: red'', ''font-family: Arial''] = mset [''font-family: Arial'', ''color: red'']
   \<and> extractFonts (join [CHR 0x0A] [''font-family: Arial'', ''color: red''])
       = [''Arial'' @ [CHR 0x0A] @ ''color: red'']
   \<and> extractFonts (join [CHR 0x0A] [''color: red'', ''font-family: Arial'']) = [''Arial'']
   \<and> set (extractFonts (join [CHR 0x0A] [''font-family: Arial'', ''color: red'']))
       \<noteq> set (extractFonts (join [CHR 0x0A] [''color: red'', ''font-family: Arial'']))
   \<and> length (extractBackgroundImages demo_platform
         (join [CHR 0x0A] [''a{background:url(/a.png'', '')}'']) ''https://x.com/page'') = 1
   \<and> extractBackgroundImages demo_platform
         (join [CHR 0x0A] ['')}'', ''a{background:url(/a.png'']) ''https://x.com/page'' = []"
  by code_simp

text \<open>
  Claim C9, amended.  For every list of CSS fragments and every permutation of it, the
  colour extractor yields over the newline-joined permuted list the same entries, each
  as often, as over the newline-joined list, and so the same result set.  The font
  extractor yields the same result set over both when every fragment is closed: no
  \<^verbatim>\<open>font-family\<close> stands behind its last \<^verbatim>\<open>;\<close>, \<^verbatim>\<open>{\<close> or \<^verbatim>\<open>}\<close>, and no \<^verbatim>\<open>@font-face\<close>
  stands behind its last \<^verbatim>\<open>}\<close> (in a fragment whose last \<^verbatim>\<open>;\<close>, \<^verbatim>\<open>{\<close> or \<^verbatim>\<open>}\<close> is not a
  \<^verbatim>\<open>}\<close>: nowhere).  The background-image extractor yields the same entries, each as
  often, and so the same result set, when every fragment closes its references: no
  \<^verbatim>\<open>url(\<close> stands behind its last \<^verbatim>\<open>)\<close>.
\<close>

theorem extraction_order_insensitive:
  "mset frags' = mset frags \<Longrightarrow>
   mset (extractColors (join [CHR 0x0A] frags')) = mset (extractColors (join [CHR 0x0A] frags))
   \<and> set (extractColors (join [CHR 0x0A] frags')) = set (extractColors (join [CHR 0x0A] frags))
   \<and> ((\<forall>f \<in> set frags. closedFragment f) \<longrightarrow>
        set (extractFonts (join [CHR 0x0A] frags')) = set (extractFonts (join [CHR 0x0A] frags)))
   \<and> ((\<forall>f \<in> set frags. closedUrls f) \<longrightarrow>
        mset (extractBackgroundImages P (join [CHR 0x0A] frags') url)
          = mset (extractBackgroundImages P (join [CHR 0x0A] frags) url)
        \<and> set (extractBackgroundImages P (join [CHR 0x0A] frags') url)
          = set (extractBackgroundImages P (join [CHR 0x0A] frags) url))"
proof -
  assume perm: "mset frags' = mset frags"
  then have "mset (concat (map extractColors frags')) = mset (concat (map extractColors frags))"
    by (rule mset_concat_map_perm)
  then have cols: "mset (extractColors (join [CHR 0x0A] frags'))
      = mset (extractColors (join [CHR 0x0A] frags))"
    by (simp only: extractColors_join)
  from perm have same: "set frags' = set frags"
    by (rule mset_eq_setD)
  have fonts: "set (extractFonts (join [CHR 0x0A] frags')) = set (extractFonts (join [CHR 0x0A] frags))"
    if "\<forall>f \<in> set frags. closedFragment f"
  proof -
    from that same have "\<forall>f \<in> set frags'. closedFragment f" by simp
    from extractFonts_join [OF this] extractFonts_join [OF that] same show ?thesis
      by simp
  qed
  have imgs: "mset (extractBackgroundImages P (join [CHR 0x0A] frags') url)
      = mset (extractBackgroundImages P (join [CHR 0x0A] frags) url)"
    if "\<forall>f \<in> set frags. closedUrls f"
  proof -
    from that same have "\<forall>f \<in> set frags'. closedUrls f" by simp
    from extractBackgroundImages_join [OF this] extractBackgroundImages_join [OF that]
      mset_concat_map_perm [OF perm, of "\<lambda>f. extractBackgroundImages P f url"]
    show ?thesis by simp
  qed
  from cols have "set (extractColors (join [CHR 0x0A] frags'))
      = set (extractColors (join [CHR 0x0A] frags))"
    by (rule mset_eq_setD)
  moreover have "set (extractBackgroundImages P (join [CHR 0x0A] frags') url)
      = set (extractBackgroundImages P (join [CHR 0x0A] frags) url)"
    if "\<forall>f \<in> set frags. closedUrls f"
    using imgs [OF that] by (rule mset_eq_setD)
  ultimately show ?thesis
    using cols fonts imgs by blast
qed

theorem extraction_order_insensitive_witness:
  \<open>mset [''b{color:#1AF;font-family:Georgia;background:url(/a.png)}'',
         ''color:#fff; font-family: Arial; background: url("b.png")'']
     = mset [''color:#fff; font-family: Arial; background: url("b.png")'',
             ''b{color:#1AF;font-family:Georgia;background:url(/a.png)}'']
   \<and> set (extractColors (join [CHR 0x0A]
           [''b{color:#1AF;font-family:Georgia;background:url(/a.png)}'',
            ''color:#fff; font-family: Arial; background: url("b.png")'']))
       = set (extractColors (join [CHR 0x0A]
           [''color:#fff; font-family: Arial; background: url("b.png")'',
            ''b{color:#1AF;font-family:Georgia;background:url(/a.png)}'']))
   \<and> set (extractFonts (join [CHR 0x0A]
           [''b{color:#1AF;font-family:Georgia;background:url(/a.png)}'',
            ''color:#fff; font-family: Arial; background: url("b.png")'']))
       = set (extractFonts (join [CHR 0x0A]
           [''color:#fff; font-family: Arial; background: url("b.png")'',
            ''b{color:#1AF;font-family:Georgia;background:url(/a.png)}'']))
   \<and> set (extractBackgroundImages demo_platform (join [CHR 0x0A]
           [''b{color:#1AF;font-family:Georgia;background:url(/a.png)}'',
            ''color:#fff; font-family: Arial; background: url("b.png")'']) ''https://x.com/page'')
       = set (extractBackgroundImages demo_platform (join [CHR 0x0A]
           [''color:#fff; font-family: Arial; background: url("b.png")'',
            ''b{color:#1AF;font-family:Georgia;background:url(/a.png)}'']) ''https://x.com/page'')
   \<and> extractColors (join [CHR 0x0A]
         [''b{color:#1AF;font-family:Georgia;background:url(/a.png)}'',
          ''color:#fff; font-family: Arial; background: url("b.png")''])
       = [''#11AAFF'', ''#FFFFFF'']
   \<and> extractColors (join [CHR 0x0A]
         [''color:#fff; font-family: Arial; background: url("b.png")'',
          ''b{color:#1AF;font-family:Georgia;background:url(/a.png)}''])
       = [''#FFFFFF'', ''#11AAFF'']
   \<and> extractFonts (join [CHR 0x0A]
         [''b{color:#1AF;font-family:Georgia;background:url(/a.png)}'',
          ''color:#fff; font-family: Arial; background: url("b.png")''])
       = [''Georgia'', ''Arial'']
   \<and> extractFonts (join [CHR 0x0A]
         [''color:#fff; font-family: Arial; background: url("b.png")'',
          ''b{color:#1AF;font-family:Georgia;background:url(/a.png)}''])
       = [''Arial'', ''Georgia'']
   \<and> extractBackgroundImages demo_platform (join [CHR 0x0A]
         [''b{color:#1AF;font-family:Georgia;background:url(/a.png)}'',
          ''color:#fff; font-family: Arial; background: url("b.png")'']) ''https://x.com/page''
       = [''https://x.com/a.png'', ''https://x.com/b.png'']
   \<and> extractBackgroundImages demo_platform (join [CHR 0x0A]
         [''color:#fff; font-family: Arial; background: url("b.png")'',
          ''b{color:#1AF;font-family:Georgia;background:url(/a.png)}'']) ''https://x.com/page''
       = [''https://x.com/b.png'', ''https://x.com/a.png'']\<close>
proof -
  let ?A = "''b{color:#1AF;font-family:Georgia;background:url(/a.png)}''"
  let ?B = \<open>''color:#fff; font-family: Arial; background: url("b.png")''\<close>
  have perm: "mset [?A, ?B] = mset [?B, ?A]"
    by (simp add: add_mset_commute)
  have closed: "\<forall>f \<in> set [?B, ?A]. closedFragment f"
    by code_simp
  have urls: "\<forall>f \<in> set [?B, ?A]. closedUrls f"
    by code_simp
  have vals: "extractColors (join [CHR 0x0A] [?A, ?B]) = [''#11AAFF'', ''#FFFFFF'']"
    "extractColors (join [CHR 0x0A] [?B, ?A]) = [''#FFFFFF'', ''#11AAFF'']"
    "extractFonts (join [CHR 0x0A] [?A, ?B]) = [''Georgia'', ''Arial'']"
    "extractFonts (join [CHR 0x0A] [?B, ?A]) = [''Arial'', ''Georgia'']"
    "extractBackgroundImages demo_platform (join [CHR 0x0A] [?A, ?B]) ''https://x.com/page''
       = [''https://x.com/a.png'', ''https://x.com/b.png'']"
    "extractBackgroundImages demo_platform (join [CHR 0x0A] [?B, ?A]) ''https://x.com/page''
       = [''https://x.com/b.png'', ''https://x.com/a.png'']"
    by code_simp+
  note inst = extraction_order_insensitive [OF perm, of demo_platform "''https://x.com/page''"]
  from inst [THEN conjunct2, THEN conjunct1]
    inst [THEN conjunct2, THEN conjunct2, THEN conjunct1, THEN mp, OF closed]
    inst [THEN conjunct2, THEN conjunct2, THEN conjunct2, THEN mp, OF urls, THEN conjunct2]
    perm vals
  show ?thesis by (intro conjI)
qed

section \<open>Style sheets that are not recovered\<close>








end
